theory Spec2Isabelle
  imports Complex_Main "HOL-Library.Multiset"
begin

section \<open>Python floats (IEEE 754 binary64)\<close>

text \<open>
  Every number in \<^verbatim>\<open>absint.py\<close> is a Python \<^verbatim>\<open>float\<close>: the constructor of
  \<^verbatim>\<open>Interval\<close> converts its arguments with \<^verbatim>\<open>float(...)\<close>. A float is a finite
  binary64 number, an infinity or a NaN. The two signed zeros compare equal and the
  program never divides by one, so they are identified here.

  Arithmetic rounds the exact result to the nearest binary64 number, ties to the even
  significand; a result that rounds beyond the largest finite number is an infinity
  (Python's \<^verbatim>\<open>+\<close>, \<^verbatim>\<open>-\<close>, \<^verbatim>\<open>*\<close> and \<^verbatim>\<open>/\<close> by a nonzero number raise nothing on
  floats). A finite value \<open>Fin r\<close> is meant with \<open>r\<close> representable, which
  \<open>representable\<close> states; every operation returns representable values.
\<close>

datatype pyfloat = Fin real | PInf | NInf | NaN

definition round_even :: "real \<Rightarrow> int" where
  "round_even r =
     (let f = \<lfloor>r\<rfloor>; d = r - of_int f
      in if d < 1 / 2 then f else if 1 / 2 < d then f + 1
         else if even f then f else f + 1)"

definition expo :: "real \<Rightarrow> int" where
  "expo r = \<lfloor>log 2 \<bar>r\<bar>\<rfloor>"

definition quantum :: "real \<Rightarrow> real" where
  "quantum r = 2 powi (max (expo r) (- 1022) - 52)"

definition fl :: "real \<Rightarrow> real" where
  "fl r = of_int (round_even (r / quantum r)) * quantum r"

definition representable :: "real \<Rightarrow> bool" where
  "representable r \<longleftrightarrow> fl r = r \<and> \<bar>r\<bar> < 2 powi 1024"

definition rnd :: "real \<Rightarrow> pyfloat" where
  "rnd r =
     (let v = fl r
      in if 2 powi 1024 \<le> v then PInf else if v \<le> - (2 powi 1024) then NInf else Fin v)"

fun fneg :: "pyfloat \<Rightarrow> pyfloat" where
  "fneg (Fin a) = Fin (- a)"
| "fneg PInf = NInf"
| "fneg NInf = PInf"
| "fneg NaN = NaN"

fun fabs :: "pyfloat \<Rightarrow> pyfloat" where
  "fabs (Fin a) = Fin \<bar>a\<bar>"
| "fabs PInf = PInf"
| "fabs NInf = PInf"
| "fabs NaN = NaN"

fun fadd :: "pyfloat \<Rightarrow> pyfloat \<Rightarrow> pyfloat" where
  "fadd (Fin a) (Fin b) = rnd (a + b)"
| "fadd NaN _ = NaN"
| "fadd _ NaN = NaN"
| "fadd PInf NInf = NaN"
| "fadd NInf PInf = NaN"
| "fadd PInf _ = PInf"
| "fadd NInf _ = NInf"
| "fadd _ PInf = PInf"
| "fadd _ NInf = NInf"

definition fsub :: "pyfloat \<Rightarrow> pyfloat \<Rightarrow> pyfloat" where
  "fsub a b = fadd a (fneg b)"

text \<open>The sign of a float as an integer; only used to multiply by an infinity.\<close>

fun fsgn :: "pyfloat \<Rightarrow> int" where
  "fsgn (Fin a) = (if a < 0 then - 1 else if a = 0 then 0 else 1)"
| "fsgn PInf = 1"
| "fsgn NInf = - 1"
| "fsgn NaN = 0"

fun fmul :: "pyfloat \<Rightarrow> pyfloat \<Rightarrow> pyfloat" where
  "fmul (Fin a) (Fin b) = rnd (a * b)"
| "fmul NaN _ = NaN"
| "fmul _ NaN = NaN"
| "fmul a b =
     (if fsgn a * fsgn b = 0 then NaN else if 0 < fsgn a * fsgn b then PInf else NInf)"

text \<open>\<^verbatim>\<open>x / 2\<close>, the only division of the program.\<close>

fun fhalf :: "pyfloat \<Rightarrow> pyfloat" where
  "fhalf (Fin a) = rnd (a / 2)"
| "fhalf PInf = PInf"
| "fhalf NInf = NInf"
| "fhalf NaN = NaN"

text \<open>Comparisons: every comparison with a NaN is false.\<close>

fun fle :: "pyfloat \<Rightarrow> pyfloat \<Rightarrow> bool" where
  "fle NaN _ = False"
| "fle _ NaN = False"
| "fle NInf _ = True"
| "fle _ PInf = True"
| "fle (Fin a) (Fin b) = (a \<le> b)"
| "fle _ _ = False"

fun flt :: "pyfloat \<Rightarrow> pyfloat \<Rightarrow> bool" where
  "flt NaN _ = False"
| "flt _ NaN = False"
| "flt PInf _ = False"
| "flt _ NInf = False"
| "flt (Fin a) (Fin b) = (a < b)"
| "flt _ _ = True"

text \<open>\<^verbatim>\<open>sys.float_info.epsilon\<close> is \<open>2\<^sup>-\<^sup>5\<^sup>2\<close>.\<close>

definition epsilon :: pyfloat where
  "epsilon = Fin (2 powi (- 52))"

text \<open>
  The builtins \<^verbatim>\<open>min\<close> and \<^verbatim>\<open>max\<close> keep the first item and replace it by a later
  one only when that one compares strictly smaller (larger); a NaN therefore never
  replaces anything and is never replaced.
\<close>

definition py_min :: "pyfloat \<Rightarrow> pyfloat list \<Rightarrow> pyfloat" where
  "py_min a bs = foldl (\<lambda>m b. if flt b m then b else m) a bs"

definition py_max :: "pyfloat \<Rightarrow> pyfloat list \<Rightarrow> pyfloat" where
  "py_max a bs = foldl (\<lambda>m b. if flt m b then b else m) a bs"

section \<open>Failures\<close>

text \<open>
  The only exception the program raises itself is the \<^verbatim>\<open>AssertionError\<close> of the
  constructor of \<^verbatim>\<open>Interval\<close>. \<^verbatim>\<open>ValueError\<close> is what the builtins \<^verbatim>\<open>min\<close>
  and \<^verbatim>\<open>max\<close> raise on an empty sequence and \<^verbatim>\<open>IndexError\<close> what
  \<^verbatim>\<open>heapq.heappop\<close> raises on an empty heap; the program never takes these two
  branches. A computation that may raise returns \<open>error + 'a\<close>.
\<close>

datatype error = AssertionError | ValueError | IndexError

definition bindE :: "error + 'a \<Rightarrow> ('a \<Rightarrow> error + 'b) \<Rightarrow> error + 'b" where
  "bindE m k = (case m of Inl e \<Rightarrow> Inl e | Inr v \<Rightarrow> k v)"

fun py_min_list :: "pyfloat list \<Rightarrow> error + pyfloat" where
  "py_min_list [] = Inl ValueError"
| "py_min_list (a # bs) = Inr (py_min a bs)"

fun py_max_list :: "pyfloat list \<Rightarrow> error + pyfloat" where
  "py_max_list [] = Inl ValueError"
| "py_max_list (a # bs) = Inr (py_max a bs)"

section \<open>class Interval\<close>

record interval =
  minI :: pyfloat
  maxI :: pyfloat

text \<open>\<^verbatim>\<open>Interval.__init__\<close>: the assertion \<^verbatim>\<open>self.min <= self.max\<close>.\<close>

definition Interval :: "pyfloat \<Rightarrow> pyfloat \<Rightarrow> error + interval" where
  "Interval lo hi =
     (if fle lo hi then Inr \<lparr>minI = lo, maxI = hi\<rparr> else Inl AssertionError)"

definition Interval_singleton :: "pyfloat \<Rightarrow> error + interval" where
  "Interval_singleton v = Interval v v"

definition Interval_wrap :: "interval \<Rightarrow> interval \<Rightarrow> error + interval" where
  "Interval_wrap i j = Interval (py_min (minI i) [minI j]) (py_max (maxI i) [maxI j])"

definition account_for_rounding_errors :: "interval \<Rightarrow> error + interval" where
  "account_for_rounding_errors s =
     Interval (fsub (minI s) (fmul (fabs (minI s)) epsilon))
              (fadd (maxI s) (fmul (fabs (maxI s)) epsilon))"

definition Interval_add :: "interval \<Rightarrow> interval \<Rightarrow> error + interval" where
  "Interval_add s t =
     bindE (Interval (fadd (minI s) (minI t)) (fadd (maxI s) (maxI t)))
       account_for_rounding_errors"

definition Interval_sub :: "interval \<Rightarrow> interval \<Rightarrow> error + interval" where
  "Interval_sub s t =
     bindE (Interval (fsub (minI s) (maxI t)) (fsub (maxI s) (minI t)))
       account_for_rounding_errors"

definition possibilities :: "interval \<Rightarrow> interval \<Rightarrow> pyfloat list" where
  "possibilities s t = [fmul a b. a \<leftarrow> [minI s, maxI s], b \<leftarrow> [minI t, maxI t]]"

definition Interval_mul :: "interval \<Rightarrow> interval \<Rightarrow> error + interval" where
  "Interval_mul s t =
     bindE (py_min_list (possibilities s t)) (\<lambda>lo.
     bindE (py_max_list (possibilities s t)) (\<lambda>hi.
     bindE (Interval lo hi) account_for_rounding_errors))"

definition can_be_nonnegative :: "interval \<Rightarrow> bool" where
  "can_be_nonnegative s = fle (Fin 0) (maxI s)"

definition can_be_negative :: "interval \<Rightarrow> bool" where
  "can_be_negative s = flt (minI s) (Fin 0)"

definition Interval_length :: "interval \<Rightarrow> error + interval" where
  "Interval_length s =
     bindE (Interval_singleton (fsub (maxI s) (minI s))) account_for_rounding_errors"

definition Interval_round :: "interval \<Rightarrow> pyfloat" where
  "Interval_round s = fhalf (fadd (minI s) (maxI s))"

definition Interval_split :: "interval \<Rightarrow> error + interval \<times> interval" where
  "Interval_split s =
     (let pivot = fhalf (fadd (minI s) (maxI s))
      in bindE (Interval (minI s) pivot) (\<lambda>a.
         bindE (Interval pivot (maxI s)) (\<lambda>b. Inr (a, b))))"

section \<open>class Box2D\<close>

record box2d =
  box_x :: interval
  box_y :: interval

definition Box2D_area :: "box2d \<Rightarrow> error + interval" where
  "Box2D_area b =
     bindE (Interval_length (box_x b)) (\<lambda>lx.
     bindE (Interval_length (box_y b)) (\<lambda>ly. Interval_mul lx ly))"

text \<open>The four quarters, in the order of the returned tuple.\<close>

definition Box2D_split :: "box2d \<Rightarrow> error + box2d list" where
  "Box2D_split b =
     bindE (Interval_split (box_x b)) (\<lambda>(x1, x2).
     bindE (Interval_split (box_y b)) (\<lambda>(y1, y2).
       Inr [\<lparr>box_x = x1, box_y = y1\<rparr>, \<lparr>box_x = x1, box_y = y2\<rparr>,
            \<lparr>box_x = x2, box_y = y1\<rparr>, \<lparr>box_x = x2, box_y = y2\<rparr>]))"

section \<open>The priority queue\<close>

text \<open>
  \<^verbatim>\<open>PrioritizedItem\<close> is ordered by its priority alone. \<^verbatim>\<open>queue.PriorityQueue\<close>
  keeps its items in the list \<^verbatim>\<open>queue\<close>, which \<^verbatim>\<open>put\<close> and \<^verbatim>\<open>get\<close> maintain with
  \<^verbatim>\<open>heapq.heappush\<close> and \<^verbatim>\<open>heapq.heappop\<close>; the functions below follow the
  standard library's \<^verbatim>\<open>heapq\<close>, hole by hole, so that the order of \<^verbatim>\<open>queue\<close> (in
  which the final sum runs) is the program's.
\<close>

record prioritized_item =
  priority :: pyfloat
  item :: box2d

definition item_lt :: "prioritized_item \<Rightarrow> prioritized_item \<Rightarrow> bool" where
  "item_lt a b = flt (priority a) (priority b)"

function siftdown_loop ::
  "prioritized_item list \<Rightarrow> prioritized_item \<Rightarrow> nat \<Rightarrow> nat \<Rightarrow> prioritized_item list \<times> nat"
where
  "siftdown_loop heap newitem startpos pos =
     (if startpos < pos then
        (let parentpos = (pos - 1) div 2; parent = heap ! parentpos
         in if item_lt newitem parent
            then siftdown_loop (heap[pos := parent]) newitem startpos parentpos
            else (heap, pos))
      else (heap, pos))"
  by pat_completeness auto
termination
  by (relation "measure (\<lambda>(heap, newitem, startpos, pos). pos)") auto

declare siftdown_loop.simps [simp del]

definition siftdown :: "prioritized_item list \<Rightarrow> nat \<Rightarrow> nat \<Rightarrow> prioritized_item list" where
  "siftdown heap startpos pos =
     (let newitem = heap ! pos;
          (heap', pos') = siftdown_loop heap newitem startpos pos
      in heap'[pos' := newitem])"

function siftup_loop ::
  "prioritized_item list \<Rightarrow> nat \<Rightarrow> nat \<Rightarrow> nat \<Rightarrow> prioritized_item list \<times> nat"
where
  "siftup_loop heap endpos pos childpos =
     (if childpos < endpos then
        (let rightpos = childpos + 1;
             childpos' = (if rightpos < endpos \<and> \<not> item_lt (heap ! childpos) (heap ! rightpos)
                          then rightpos else childpos)
         in siftup_loop (heap[pos := heap ! childpos']) endpos childpos' (2 * childpos' + 1))
      else (heap, pos))"
  by pat_completeness auto
termination
  by (relation "measure (\<lambda>(heap, endpos, pos, childpos). endpos - childpos)") auto

declare siftup_loop.simps [simp del]

definition siftup :: "prioritized_item list \<Rightarrow> nat \<Rightarrow> prioritized_item list" where
  "siftup heap pos =
     (let endpos = length heap; startpos = pos; newitem = heap ! pos;
          (heap', pos') = siftup_loop heap endpos pos (2 * pos + 1)
      in siftdown (heap'[pos' := newitem]) startpos pos')"

definition heappush :: "prioritized_item list \<Rightarrow> prioritized_item \<Rightarrow> prioritized_item list" where
  "heappush heap it = siftdown (heap @ [it]) 0 (length heap)"

definition heappop ::
  "prioritized_item list \<Rightarrow> error + prioritized_item \<times> prioritized_item list"
where
  "heappop heap =
     (if heap = [] then Inl IndexError
      else (let lastelt = last heap; heap' = butlast heap
            in if heap' \<noteq> [] then Inr (heap' ! 0, siftup (heap'[0 := lastelt]) 0)
               else Inr (lastelt, heap')))"

section \<open>probability\_nonnegative\<close>

text \<open>
  The state of the search: the list \<^verbatim>\<open>nonnegative_on\<close> and the list \<^verbatim>\<open>queue\<close> of the
  priority queue \<^verbatim>\<open>worklist\<close>. The callback \<open>f\<close> is any Python callable from boxes to
  intervals, so it may raise. The progress bar \<^verbatim>\<open>tqdm\<close> only prints.
\<close>

record search_state =
  nonnegative_on :: "box2d list"
  worklist :: "prioritized_item list"

text \<open>\<^verbatim>\<open>worklist.put(PrioritizedItem(-box.area().round(), box))\<close>\<close>

definition put :: "prioritized_item list \<Rightarrow> box2d \<Rightarrow> error + prioritized_item list" where
  "put wl b =
     bindE (Box2D_area b) (\<lambda>a.
       Inr (heappush wl \<lparr>priority = fneg (Interval_round a), item = b\<rparr>))"

fun put_all :: "prioritized_item list \<Rightarrow> box2d list \<Rightarrow> error + prioritized_item list" where
  "put_all wl [] = Inr wl"
| "put_all wl (quarter # quarters) = bindE (put wl quarter) (\<lambda>wl'. put_all wl' quarters)"

text \<open>The body of the loop, after the test for an empty worklist.\<close>

definition iteration ::
  "(box2d \<Rightarrow> error + interval) \<Rightarrow> search_state \<Rightarrow> error + search_state"
where
  "iteration f s =
     bindE (heappop (worklist s)) (\<lambda>(it, wl).
     let box = item it in
     bindE (f box) (\<lambda>f_on_box.
     let nn = (if \<not> can_be_negative f_on_box then nonnegative_on s @ [box]
               else nonnegative_on s) in
     if can_be_negative f_on_box \<and> can_be_nonnegative f_on_box
     then bindE (Box2D_split box) (\<lambda>quarters.
          bindE (put_all wl quarters) (\<lambda>wl'.
            Inr \<lparr>nonnegative_on = nn, worklist = wl'\<rparr>))
     else Inr \<lparr>nonnegative_on = nn, worklist = wl\<rparr>))"

fun loop ::
  "(box2d \<Rightarrow> error + interval) \<Rightarrow> nat \<Rightarrow> search_state \<Rightarrow> error + search_state"
where
  "loop f 0 s = Inr s"
| "loop f (Suc n) s =
     (if worklist s = [] then Inr s else bindE (iteration f s) (loop f n))"

text \<open>
  \<^verbatim>\<open>sum((box.area() for box in boxes), start=acc)\<close>: the builtin adds the items to the
  start value from left to right, with \<^verbatim>\<open>Interval.__add__\<close>.
\<close>

fun sum_areas :: "interval \<Rightarrow> box2d list \<Rightarrow> error + interval" where
  "sum_areas acc [] = Inr acc"
| "sum_areas acc (b # bs) =
     bindE (Box2D_area b) (\<lambda>a.
     bindE (Interval_add acc a) (\<lambda>acc'. sum_areas acc' bs))"

definition initial_state :: "box2d \<Rightarrow> error + search_state" where
  "initial_state domain =
     bindE (put [] domain) (\<lambda>wl. Inr \<lparr>nonnegative_on = [], worklist = wl\<rparr>)"

definition bounds :: "search_state \<Rightarrow> error + interval" where
  "bounds s =
     bindE (Interval_singleton (Fin 0)) (\<lambda>start.
     bindE (sum_areas start (nonnegative_on s)) (\<lambda>lower_bound.
     bindE (Interval_singleton (Fin 0)) (\<lambda>start'.
     bindE (sum_areas start' (map item (worklist s))) (\<lambda>rest.
     bindE (Interval_add lower_bound rest) (\<lambda>upper_bound.
       Interval_wrap lower_bound upper_bound)))))"

text \<open>\<^verbatim>\<open>range(iterations)\<close> is empty for a negative \<^verbatim>\<open>iterations\<close>.\<close>

definition probability_nonnegative ::
  "(box2d \<Rightarrow> error + interval) \<Rightarrow> box2d \<Rightarrow> int \<Rightarrow> error + interval"
where
  "probability_nonnegative f domain iterations =
     bindE (initial_state domain) (\<lambda>s0.
     bindE (loop f (nat iterations) s0) bounds)"

section \<open>Vocabulary of the properties\<close>

text \<open>
  The real numbers of an interval and the points of a box (closed sets), the open
  interior of a box, the class invariant of \<^verbatim>\<open>Interval\<close>, and the boxes a search state
  holds: first the resolved ones, then the pending ones in the order of the queue.
\<close>

definition in_interval :: "real \<Rightarrow> interval \<Rightarrow> bool" where
  "in_interval p i \<longleftrightarrow> fle (minI i) (Fin p) \<and> fle (Fin p) (maxI i)"

definition in_box :: "real \<times> real \<Rightarrow> box2d \<Rightarrow> bool" where
  "in_box p b \<longleftrightarrow> in_interval (fst p) (box_x b) \<and> in_interval (snd p) (box_y b)"

definition inside_interval :: "real \<Rightarrow> interval \<Rightarrow> bool" where
  "inside_interval p i \<longleftrightarrow> flt (minI i) (Fin p) \<and> flt (Fin p) (maxI i)"

definition inside_box :: "real \<times> real \<Rightarrow> box2d \<Rightarrow> bool" where
  "inside_box p b \<longleftrightarrow> inside_interval (fst p) (box_x b) \<and> inside_interval (snd p) (box_y b)"

definition wf_interval :: "interval \<Rightarrow> bool" where
  "wf_interval i \<longleftrightarrow> fle (minI i) (maxI i)"

definition wf_box :: "box2d \<Rightarrow> bool" where
  "wf_box b \<longleftrightarrow> wf_interval (box_x b) \<and> wf_interval (box_y b)"

definition all_boxes :: "search_state \<Rightarrow> box2d list" where
  "all_boxes s = nonnegative_on s @ map item (worklist s)"

text \<open>The state in which the loop ends, before the bounds are computed.\<close>

definition search ::
  "(box2d \<Rightarrow> error + interval) \<Rightarrow> box2d \<Rightarrow> nat \<Rightarrow> error + search_state"
where
  "search f domain n = bindE (initial_state domain) (loop f n)"

definition point_interval :: "real \<Rightarrow> interval" where
  "point_interval v = \<lparr>minI = Fin v, maxI = Fin v\<rparr>"

definition interior_disjoint :: "box2d \<Rightarrow> box2d \<Rightarrow> bool" where
  "interior_disjoint b c \<longleftrightarrow> \<not> (\<exists>p. inside_box p b \<and> inside_box p c)"

definition extends :: "(box2d \<Rightarrow> error + interval) \<Rightarrow> (real \<times> real \<Rightarrow> real) \<Rightarrow> bool" where
  "extends f g \<longleftrightarrow> (\<forall>b v p. f b = Inr v \<longrightarrow> in_box p b \<longrightarrow> in_interval (g p) v)"

definition covers :: "(real \<times> real \<Rightarrow> real) \<Rightarrow> box2d \<Rightarrow> box2d list \<Rightarrow> bool" where
  "covers g domain bs \<longleftrightarrow> (\<forall>p. in_box p domain \<and> 0 \<le> g p \<longrightarrow> (\<exists>b\<in>set bs. in_box p b))"

definition contained_in :: "box2d \<Rightarrow> box2d list \<Rightarrow> bool" where
  "contained_in domain bs \<longleftrightarrow> (\<forall>b\<in>set bs. \<forall>p. in_box p b \<longrightarrow> in_box p domain)"

definition unit_box :: box2d where
  "unit_box = \<lparr>box_x = \<lparr>minI = Fin 0, maxI = Fin 1\<rparr>, box_y = \<lparr>minI = Fin 0, maxI = Fin 1\<rparr>\<rparr>"

definition straddling :: "box2d \<Rightarrow> error + interval" where
  "straddling b = Inr \<lparr>minI = Fin (- 1), maxI = Fin 1\<rparr>"

definition quarter :: "real \<Rightarrow> real \<Rightarrow> prioritized_item" where
  "quarter u v = \<lparr>priority = Fin (- (1 / 4)),
     item = \<lparr>box_x = \<lparr>minI = Fin u, maxI = Fin (u + 1 / 2)\<rparr>,
              box_y = \<lparr>minI = Fin v, maxI = Fin (v + 1 / 2)\<rparr>\<rparr>\<rparr>"

definition quartered :: search_state where
  "quartered = \<lparr>nonnegative_on = [],
     worklist = [quarter 0 0, quarter 0 (1 / 2), quarter (1 / 2) 0, quarter (1 / 2) (1 / 2)]\<rparr>"


definition point_box :: "real \<Rightarrow> real \<Rightarrow> box2d" where
  "point_box u v = \<lparr>box_x = point_interval u, box_y = point_interval v\<rparr>"

text \<open>
  The result as the specification words it. The interval sum of a sequence of areas
  starts from \<open>[0, 0]\<close> and adds one area after the other; the lower bound is the sum
  over the resolved boxes, the upper bound is the lower bound plus the sum over the
  boxes still in the worklist, and the result wraps the two.
\<close>

definition interval_sum :: "(error + interval) list \<Rightarrow> error + interval" where
  "interval_sum areas =
     foldl (\<lambda>total area. bindE total (\<lambda>t. bindE area (\<lambda>a. Interval_add t a)))
       (Interval_singleton (Fin 0)) areas"

definition wrapped_bounds :: "search_state \<Rightarrow> error + interval" where
  "wrapped_bounds s =
     bindE (interval_sum (map Box2D_area (nonnegative_on s))) (\<lambda>lower_bound.
     bindE (interval_sum (map (\<lambda>it. Box2D_area (item it)) (worklist s))) (\<lambda>unresolved.
     bindE (Interval_add lower_bound unresolved) (\<lambda>upper_bound.
       Interval_wrap lower_bound upper_bound)))"

text \<open>
  Exact lengths and areas, in real arithmetic, of intervals and boxes with finite
  endpoints; the exact area of the resolved boxes and of all boxes of a state.
\<close>

definition finite_interval :: "interval \<Rightarrow> bool" where
  "finite_interval i \<longleftrightarrow>
     (case (minI i, maxI i) of (Fin a, Fin b) \<Rightarrow> a \<le> b | _ \<Rightarrow> False)"

definition finite_box :: "box2d \<Rightarrow> bool" where
  "finite_box b \<longleftrightarrow> finite_interval (box_x b) \<and> finite_interval (box_y b)"

definition exact_length :: "interval \<Rightarrow> real" where
  "exact_length i = (case (minI i, maxI i) of (Fin a, Fin b) \<Rightarrow> b - a | _ \<Rightarrow> 0)"

definition exact_area :: "box2d \<Rightarrow> real" where
  "exact_area b = exact_length (box_x b) * exact_length (box_y b)"

definition resolved_area :: "search_state \<Rightarrow> real" where
  "resolved_area s = sum_list (map exact_area (nonnegative_on s))"

definition enclosing_area :: "search_state \<Rightarrow> real" where
  "enclosing_area s = sum_list (map exact_area (all_boxes s))"

definition undivided :: search_state where
  "undivided = \<lparr>nonnegative_on = [], worklist = [\<lparr>priority = Fin (- 1), item = unit_box\<rparr>]\<rparr>"

text \<open>
  A float that is not negative: an infinity, zero, or a finite number of at least the
  least positive binary64 number.
\<close>

definition nonneg_float :: "pyfloat \<Rightarrow> bool" where
  "nonneg_float t \<longleftrightarrow>
     (case t of Fin v \<Rightarrow> 0 \<le> v \<and> v < 2 powi 1024 \<and> (v = 0 \<or> 2 powi (- 1074) \<le> v)
      | PInf \<Rightarrow> True | _ \<Rightarrow> False)"

definition always_one :: "box2d \<Rightarrow> error + interval" where
  "always_one b = Inr \<lparr>minI = Fin 1, maxI = Fin 1\<rparr>"

definition corner_box :: "real \<Rightarrow> box2d" where
  "corner_box t = \<lparr>box_x = \<lparr>minI = Fin 0, maxI = Fin t\<rparr>, box_y = \<lparr>minI = Fin 0, maxI = Fin t\<rparr>\<rparr>"

definition corner_quarters :: "real \<Rightarrow> box2d list" where
  "corner_quarters t =
     (let a = \<lparr>minI = Fin 0, maxI = Fin (t / 2)\<rparr>; b = \<lparr>minI = Fin (t / 2), maxI = Fin t\<rparr>
      in [\<lparr>box_x = a, box_y = a\<rparr>, \<lparr>box_x = a, box_y = b\<rparr>,
          \<lparr>box_x = b, box_y = a\<rparr>, \<lparr>box_x = b, box_y = b\<rparr>])"

text \<open>The multiples of the least positive binary64 number.\<close>

definition on_grid :: "real \<Rightarrow> bool" where
  "on_grid v \<longleftrightarrow> (\<exists>n::int. v = of_int n * 2 powi (- 1074))"






section \<open>Evaluating the rounding\<close>

lemma expo_eq:
  assumes "2 powi e \<le> \<bar>x\<bar>" "\<bar>x\<bar> < 2 powi (e + 1)"
  shows "expo x = e"
proof -
  have pos: "0 < \<bar>x\<bar>" using assms(1) by (smt (verit) zero_less_power_int)
  have "(2::real) powr (of_int e) = 2 powi e" by (simp add: powr_real_of_int')
  moreover have "(2::real) powr (of_int e + 1) = 2 powi (e + 1)"
    using powr_real_of_int'[of 2 "e + 1"] by (simp add: add.commute)
  ultimately show ?thesis
    unfolding expo_def using floor_log_eq_powr_iff[of "\<bar>x\<bar>" 2 e] pos assms by simp
qed

lemma expo_bounds:
  assumes "x \<noteq> 0"
  shows "2 powi (expo x) \<le> \<bar>x\<bar>" "\<bar>x\<bar> < 2 powi (expo x + 1)"
proof -
  have pos: "0 < \<bar>x\<bar>" using assms by simp
  have a: "(2::real) powr (of_int (expo x)) = 2 powi (expo x)" by (simp add: powr_real_of_int')
  have b: "(2::real) powr (of_int (expo x) + 1) = 2 powi (expo x + 1)"
    using powr_real_of_int'[of 2 "expo x + 1"] by (simp add: add.commute)
  have "\<lfloor>log 2 \<bar>x\<bar>\<rfloor> = expo x" by (simp add: expo_def)
  then have "2 powr (of_int (expo x)) \<le> \<bar>x\<bar> \<and> \<bar>x\<bar> < 2 powr (of_int (expo x) + 1)"
    using floor_log_eq_powr_iff[of "\<bar>x\<bar>" 2 "expo x"] pos by simp
  then show "2 powi (expo x) \<le> \<bar>x\<bar>" "\<bar>x\<bar> < 2 powi (expo x + 1)"
    using a b by simp_all
qed

lemma expo_less:
  assumes "x \<noteq> 0" "\<bar>x\<bar> < 2 powi k"
  shows "expo x < k"
proof (rule ccontr)
  assume "\<not> expo x < k"
  then have "k \<le> expo x" by simp
  then have "(2::real) powi k \<le> 2 powi (expo x)" by (simp add: power_int_increasing)
  with expo_bounds(1)[OF assms(1)] assms(2) show False by simp
qed

lemma round_even_of_int [simp]: "round_even (of_int k) = k"
  by (simp add: round_even_def)

lemma round_even_numeral [simp]: "round_even (numeral k) = numeral k"
  using round_even_of_int[of "numeral k"] by simp

lemma round_even_0 [simp]: "round_even 0 = 0"
  using round_even_of_int[of 0] by simp

lemma fl_0 [simp]: "fl 0 = 0"
  by (simp add: fl_def)

lemma rnd_0 [simp]: "rnd 0 = Fin 0"
  by (simp add: rnd_def)

lemma fl_normal:
  assumes "2 powi e \<le> \<bar>x\<bar>" "\<bar>x\<bar> < 2 powi (e + 1)" "- 1022 \<le> e"
  shows "fl x = of_int (round_even (x / 2 powi (e - 52))) * 2 powi (e - 52)"
  using expo_eq[OF assms(1,2)] assms(3) by (simp add: fl_def quantum_def max_def)

lemma fl_subnormal:
  assumes "\<bar>x\<bar> < 2 powi (- 1022)"
  shows "fl x = of_int (round_even (x / 2 powi (- 1074))) * 2 powi (- 1074)"
proof (cases "x = 0")
  case True then show ?thesis by simp
next
  case False
  from expo_less[OF False assms] have "max (expo x) (- 1022) = - 1022" by simp
  then show ?thesis by (simp add: fl_def quantum_def)
qed

text \<open>
  The exponent of a numeral is found by doubling or halving it into \<open>[1, 2)\<close>; with
  these equations the simplifier rounds any concrete number of moderate size.
\<close>

lemma expo_double: assumes "x \<noteq> 0" shows "expo (2 * x) = expo x + 1"
proof -
  have "2 powi (expo x + 1) \<le> \<bar>2 * x\<bar>"
    using expo_bounds(1)[OF assms] by (simp add: power_int_add)
  moreover have "\<bar>2 * x\<bar> < 2 powi (expo x + 1 + 1)"
    using expo_bounds(2)[OF assms] by (simp add: power_int_add)
  ultimately show ?thesis by (rule expo_eq)
qed

lemma expo_half: assumes "x \<noteq> 0" shows "expo (x / 2) = expo x - 1"
  using expo_double[of "x / 2"] assms by simp

lemma expo_unit: "1 \<le> \<bar>x\<bar> \<Longrightarrow> \<bar>x\<bar> < 2 \<Longrightarrow> expo x = 0"
  using expo_eq[of 0 x] by simp

lemma expo_step:
  "x \<noteq> 0 \<Longrightarrow>
   expo x = (if \<bar>x\<bar> < 1 then expo (2 * x) - 1 else if 2 \<le> \<bar>x\<bar> then expo (x / 2) + 1 else 0)"
  using expo_double[of x] expo_half[of x] expo_unit[of x] by auto

lemmas expo_numeral =
  expo_step[of "numeral a / numeral b" for a b]
  expo_step[of "numeral a" for a]
  expo_step[of "- (numeral a / numeral b)" for a b]
  expo_step[of "- numeral a" for a]
  expo_step[of "1 / numeral b" for b]

lemma expo_1 [simp]: "expo 1 = 0"
  by (rule expo_unit) simp_all

lemmas fl_eval = rnd_def fl_def quantum_def round_even_def Let_def expo_numeral power_int_minus

lemmas model_eval = Interval_def Interval_singleton_def Interval_wrap_def
  account_for_rounding_errors_def Interval_add_def Interval_sub_def possibilities_def
  Interval_mul_def Interval_length_def Interval_round_def Interval_split_def Box2D_area_def
  Box2D_split_def bindE_def py_min_def py_max_def fsub_def epsilon_def

section \<open>Overflow and underflow\<close>

lemma fadd_overflow: "fadd (Fin (2 powi 1023)) (Fin (2 powi 1023)) = PInf"
proof -
  have "fl (2 powi 1023 + 2 powi 1023) = 2 powi 1024"
    by (subst fl_normal[where e = 1024]) simp_all
  then show ?thesis by (simp add: rnd_def)
qed

lemma fmul_underflow: "fmul (Fin (2 powi (- 600))) (Fin (2 powi (- 600))) = Fin 0"
proof -
  have "fl (2 powi (- 600) * 2 powi (- 600)) = 0"
    by (subst fl_subnormal) (simp_all add: power_int_minus round_even_def)
  then show ?thesis by (simp add: rnd_def)
qed

text \<open>
  C9. The claim: an interval operation applied to intervals with \<open>min \<le> max\<close> never
  trips the assertion of the constructor. The code at a finite input: the interval
  \<open>[2\<^sup>1\<^sup>0\<^sup>2\<^sup>3, 2\<^sup>1\<^sup>0\<^sup>2\<^sup>3]\<close> is constructed without failure, and \<^verbatim>\<open>split\<close> on it raises,
  because \<^verbatim>\<open>self.min + self.max\<close> overflows to infinity before it is halved.
\<close>

theorem Interval_split_overflow:
  "Interval (Fin (2 powi 1023)) (Fin (2 powi 1023)) = Inr (point_interval (2 powi 1023)) \<and>
   Interval_split (point_interval (2 powi 1023)) = Inl AssertionError"
  using fadd_overflow
  by (simp add: Interval_def Interval_split_def bindE_def point_interval_def)

text \<open>
  C2. The claim: the product of a number of \<open>A\<close> and a number of \<open>B\<close> lies in the
  interval \<^verbatim>\<open>A * B\<close>. The code at \<open>A = B = [2\<^sup>-\<^sup>6\<^sup>0\<^sup>0, 2\<^sup>-\<^sup>6\<^sup>0\<^sup>0]\<close>: the endpoint products
  underflow to zero, widening zero by a multiple of itself changes nothing, and the
  interval returned is \<open>[0, 0]\<close>, which does not hold the positive product.
\<close>

theorem Interval_mul_underflow:
  "in_interval (2 powi (- 600)) (point_interval (2 powi (- 600))) \<and>
   Interval_mul (point_interval (2 powi (- 600))) (point_interval (2 powi (- 600)))
     = Inr (point_interval 0) \<and>
   \<not> in_interval (2 powi (- 600) * 2 powi (- 600)) (point_interval 0)"
  using fmul_underflow
  by (simp add: Interval_mul_def possibilities_def py_min_def py_max_def Interval_def bindE_def
      account_for_rounding_errors_def epsilon_def fsub_def point_interval_def in_interval_def)

section \<open>The order of the floats\<close>

lemma fle_trans: "fle a b \<Longrightarrow> fle b c \<Longrightarrow> fle a c"
  by (cases a; cases b; cases c) simp_all

lemma flt_fle_trans: "flt a b \<Longrightarrow> fle b c \<Longrightarrow> flt a c"
  by (cases a; cases b; cases c) simp_all

lemma fle_flt_trans: "fle a b \<Longrightarrow> flt b c \<Longrightarrow> flt a c"
  by (cases a; cases b; cases c) simp_all

lemma flt_irrefl [simp]: "\<not> flt a a"
  by (cases a) simp_all

lemma flt_asym: "flt a b \<Longrightarrow> \<not> flt b a"
  by (cases a; cases b) simp_all

lemma flt_imp_fle: "flt a b \<Longrightarrow> fle a b"
  by (cases a; cases b) simp_all

lemma fle_total: "fle a a \<Longrightarrow> fle b b \<Longrightarrow> fle a b \<or> flt b a"
  by (cases a; cases b) auto


lemma fle_refl_right: "fle a b \<Longrightarrow> fle b b"
  by (cases a; cases b) simp_all

lemma fle_Fin_refl [simp]: "fle (Fin a) (Fin a)"
  by simp


section \<open>The heap keeps its items\<close>

lemma mset_swap_update:
  assumes "i < length xs" "j < length xs" "i \<noteq> j"
  shows "mset (xs[i := xs ! j, j := v]) = mset (xs[i := v])"
proof -
  let ?ys = "xs[i := v]"
  have "mset (?ys[i := ?ys ! j, j := ?ys ! i]) = mset ?ys"
    using assms by (intro mset_swap) simp_all
  moreover have "?ys[i := ?ys ! j, j := ?ys ! i] = xs[i := xs ! j, j := v]"
    using assms by simp
  ultimately show ?thesis by simp
qed

lemma siftdown_loop_mset:
  assumes "pos < length heap" "siftdown_loop heap newitem startpos pos = (heap', pos')"
  shows "pos' < length heap' \<and> mset (heap'[pos' := newitem]) = mset (heap[pos := newitem])"
  using assms
proof (induction heap newitem startpos pos rule: siftdown_loop.induct)
  case (1 heap newitem startpos pos)
  show ?case
  proof (cases "startpos < pos \<and> item_lt newitem (heap ! ((pos - 1) div 2))")
    case True
    let ?pp = "(pos - 1) div 2"
    have pp: "?pp < pos" using True by auto
    have rec: "siftdown_loop (heap[pos := heap ! ?pp]) newitem startpos ?pp = (heap', pos')"
      using "1.prems"(2) True by (subst (asm) siftdown_loop.simps) (simp add: Let_def)
    have "pos' < length heap' \<and>
          mset (heap'[pos' := newitem]) = mset ((heap[pos := heap ! ?pp])[?pp := newitem])"
      using "1.IH"[OF _ refl refl _ _ rec] True pp "1.prems"(1) by simp
    moreover have "mset ((heap[pos := heap ! ?pp])[?pp := newitem]) = mset (heap[pos := newitem])"
      using mset_swap_update[of pos heap ?pp newitem] pp "1.prems"(1) by simp
    ultimately show ?thesis by simp
  next
    case False
    then have "siftdown_loop heap newitem startpos pos = (heap, pos)"
      by (subst siftdown_loop.simps) (auto simp: Let_def)
    then have "heap' = heap" "pos' = pos"
      using "1.prems"(2) by simp_all
    then show ?thesis using "1.prems"(1) by simp
  qed
qed

lemma siftdown_mset:
  assumes "pos < length heap"
  shows "mset (siftdown heap startpos pos) = mset heap"
proof -
  obtain heap' pos' where r: "siftdown_loop heap (heap ! pos) startpos pos = (heap', pos')"
    by (cases "siftdown_loop heap (heap ! pos) startpos pos")
  from siftdown_loop_mset[OF assms r] show ?thesis
    by (simp add: siftdown_def r)
qed

lemma siftup_loop_mset:
  assumes "endpos = length heap" "pos < length heap" "pos < childpos"
    "siftup_loop heap endpos pos childpos = (heap', pos')"
  shows "pos' < length heap' \<and> mset (heap'[pos' := newitem]) = mset (heap[pos := newitem])"
  using assms
proof (induction heap endpos pos childpos rule: siftup_loop.induct)
  case (1 heap endpos pos childpos)
  show ?case
  proof (cases "childpos < endpos")
    case True
    define c where "c = (if childpos + 1 < endpos \<and>
        \<not> item_lt (heap ! childpos) (heap ! (childpos + 1)) then childpos + 1 else childpos)"
    have c: "c < length heap" "pos < c"
      using True "1.prems"(1,3) by (auto simp: c_def)
    have "siftup_loop heap endpos pos childpos =
          siftup_loop (heap[pos := heap ! c]) endpos c (2 * c + 1)"
      unfolding c_def by (subst siftup_loop.simps) (simp only: True if_True Let_def)
    then have rec: "siftup_loop (heap[pos := heap ! c]) endpos c (2 * c + 1) = (heap', pos')"
      using "1.prems"(4) by simp
    have "pos' < length heap' \<and>
          mset (heap'[pos' := newitem]) = mset ((heap[pos := heap ! c])[c := newitem])"
    proof (rule "1.IH"[OF True refl c_def _ _ _ rec])
      show "endpos = length (heap[pos := heap ! c])" using "1.prems"(1) by simp
      show "c < length (heap[pos := heap ! c])" using c by simp
      show "c < 2 * c + 1" by simp
    qed
    moreover have "mset ((heap[pos := heap ! c])[c := newitem]) = mset (heap[pos := newitem])"
      using mset_swap_update[of pos heap c newitem] c "1.prems"(2) by simp
    ultimately show ?thesis by simp
  next
    case False
    then have "siftup_loop heap endpos pos childpos = (heap, pos)"
      by (subst siftup_loop.simps) simp
    then have "heap' = heap" "pos' = pos"
      using "1.prems"(4) by simp_all
    then show ?thesis using "1.prems"(2) by simp
  qed
qed

lemma siftup_mset:
  assumes "pos < length heap"
  shows "mset (siftup heap pos) = mset heap"
proof -
  obtain heap' pos' where r: "siftup_loop heap (length heap) pos (2 * pos + 1) = (heap', pos')"
    by (cases "siftup_loop heap (length heap) pos (2 * pos + 1)")
  from siftup_loop_mset[OF refl assms _ r, of "heap ! pos"]
  have a: "pos' < length heap'" "mset (heap'[pos' := heap ! pos]) = mset heap" by simp_all
  have "mset (siftdown (heap'[pos' := heap ! pos]) pos pos') = mset (heap'[pos' := heap ! pos])"
    by (rule siftdown_mset) (use a in simp)
  moreover have "siftup heap pos = siftdown (heap'[pos' := heap ! pos]) pos pos'"
    by (simp only: siftup_def Let_def r prod.case)
  ultimately show ?thesis using a by simp
qed

lemma heappush_mset: "mset (heappush heap it) = add_mset it (mset heap)"
  by (simp add: heappush_def siftdown_mset)

lemma heappop_mset:
  assumes "heappop heap = Inr (it, heap')"
  shows "mset heap = add_mset it (mset heap')"
proof -
  have "heap \<noteq> []" using assms by (auto simp: heappop_def)
  then obtain h0 l where heap: "heap = h0 @ [l]" by (cases heap rule: rev_cases) auto
  show ?thesis
  proof (cases "h0 = []")
    case True
    then show ?thesis using assms heap by (auto simp: heappop_def Let_def)
  next
    case False
    then have it: "it = h0 ! 0" "heap' = siftup (h0[0 := l]) 0"
      using assms heap by (auto simp: heappop_def Let_def)
    have "mset heap' = mset (h0[0 := l])"
      unfolding it by (rule siftup_mset) (use False in simp)
    also have "\<dots> = add_mset l (mset h0 - {#h0 ! 0#})"
      using False by (simp add: mset_update)
    finally have "add_mset it (mset heap') = add_mset l (mset h0)"
      using False it(1) by (simp add: nth_mem)
    then show ?thesis using heap by simp
  qed
qed

section \<open>Bisection\<close>

lemma bindE_Inr_iff: "bindE m k = Inr r \<longleftrightarrow> (\<exists>v. m = Inr v \<and> k v = Inr r)"
  by (cases m) (simp_all add: bindE_def)

lemma Interval_Inr_iff:
  "Interval lo hi = Inr i \<longleftrightarrow> fle lo hi \<and> i = \<lparr>minI = lo, maxI = hi\<rparr>"
  by (auto simp: Interval_def)

lemma Interval_split_Inr:
  assumes "Interval_split i = Inr (a, b)"
  shows "minI a = minI i" "maxI b = maxI i" "maxI a = minI b"
    "fle (minI i) (minI b)" "fle (minI b) (maxI i)"
  using assms by (auto simp: Interval_split_def Let_def bindE_Inr_iff Interval_Inr_iff)

lemma split_in_interval:
  assumes "Interval_split i = Inr (a, b)"
  shows "in_interval p i \<longleftrightarrow> in_interval p a \<or> in_interval p b"
proof -
  note s = Interval_split_Inr[OF assms]
  have piv: "fle (minI b) (minI b)" using s(4) by (rule fle_refl_right)
  show ?thesis
  proof
    assume "in_interval p i"
    then have p: "fle (minI i) (Fin p)" "fle (Fin p) (maxI i)" by (simp_all add: in_interval_def)
    from fle_total[OF fle_Fin_refl piv, of p] show "in_interval p a \<or> in_interval p b"
      using p s by (auto simp: in_interval_def dest: flt_imp_fle)
  next
    assume "in_interval p a \<or> in_interval p b"
    then show "in_interval p i"
      using s by (auto simp: in_interval_def intro: fle_trans)
  qed
qed

lemma split_inside_interval:
  assumes "Interval_split i = Inr (a, b)"
  shows "inside_interval p a \<Longrightarrow> inside_interval p i"
    "inside_interval p b \<Longrightarrow> inside_interval p i"
    "\<not> (inside_interval p a \<and> inside_interval p b)"
  using Interval_split_Inr[OF assms]
  by (auto simp: inside_interval_def intro: flt_fle_trans fle_flt_trans dest: flt_asym)

lemma split_wf_interval:
  assumes "Interval_split i = Inr (a, b)"
  shows "wf_interval a" "wf_interval b"
  using Interval_split_Inr[OF assms] by (simp_all add: wf_interval_def)

lemma Box2D_split_Inr:
  assumes "Box2D_split b = Inr qs"
  obtains x1 x2 y1 y2 where
    "Interval_split (box_x b) = Inr (x1, x2)" "Interval_split (box_y b) = Inr (y1, y2)"
    "qs = [\<lparr>box_x = x1, box_y = y1\<rparr>, \<lparr>box_x = x1, box_y = y2\<rparr>,
           \<lparr>box_x = x2, box_y = y1\<rparr>, \<lparr>box_x = x2, box_y = y2\<rparr>]"
  using assms by (auto simp: Box2D_split_def bindE_Inr_iff)

lemma Box2D_split_length: "Box2D_split b = Inr qs \<Longrightarrow> length qs = 4"
  by (erule Box2D_split_Inr) simp

lemma Box2D_split_cover:
  assumes "Box2D_split b = Inr qs"
  shows "in_box p b \<longleftrightarrow> (\<exists>q\<in>set qs. in_box p q)"
proof -
  from assms obtain x1 x2 y1 y2 where
    x: "Interval_split (box_x b) = Inr (x1, x2)" and y: "Interval_split (box_y b) = Inr (y1, y2)"
    and qs: "qs = [\<lparr>box_x = x1, box_y = y1\<rparr>, \<lparr>box_x = x1, box_y = y2\<rparr>,
           \<lparr>box_x = x2, box_y = y1\<rparr>, \<lparr>box_x = x2, box_y = y2\<rparr>]"
    by (rule Box2D_split_Inr)
  show ?thesis
    unfolding qs in_box_def split_in_interval[OF x] split_in_interval[OF y] by auto
qed

lemma Box2D_split_inside:
  assumes "Box2D_split b = Inr qs" "q \<in> set qs" "inside_box p q"
  shows "inside_box p b"
proof -
  from assms(1) obtain x1 x2 y1 y2 where
    x: "Interval_split (box_x b) = Inr (x1, x2)" and y: "Interval_split (box_y b) = Inr (y1, y2)"
    and qs: "qs = [\<lparr>box_x = x1, box_y = y1\<rparr>, \<lparr>box_x = x1, box_y = y2\<rparr>,
           \<lparr>box_x = x2, box_y = y1\<rparr>, \<lparr>box_x = x2, box_y = y2\<rparr>]"
    by (rule Box2D_split_Inr)
  show ?thesis
    using assms(2,3) split_inside_interval(1,2)[OF x] split_inside_interval(1,2)[OF y]
    unfolding qs inside_box_def by auto
qed

lemma Box2D_split_disjoint:
  assumes "Box2D_split b = Inr qs"
  shows "sorted_wrt interior_disjoint qs"
proof -
  from assms obtain x1 x2 y1 y2 where
    x: "Interval_split (box_x b) = Inr (x1, x2)" and y: "Interval_split (box_y b) = Inr (y1, y2)"
    and qs: "qs = [\<lparr>box_x = x1, box_y = y1\<rparr>, \<lparr>box_x = x1, box_y = y2\<rparr>,
           \<lparr>box_x = x2, box_y = y1\<rparr>, \<lparr>box_x = x2, box_y = y2\<rparr>]"
    by (rule Box2D_split_Inr)
  show ?thesis
    using split_inside_interval(3)[OF x] split_inside_interval(3)[OF y]
    unfolding qs interior_disjoint_def inside_box_def by auto
qed

lemma Box2D_split_wf:
  assumes "Box2D_split b = Inr qs" "q \<in> set qs"
  shows "wf_box q"
proof -
  from assms(1) obtain x1 x2 y1 y2 where
    x: "Interval_split (box_x b) = Inr (x1, x2)" and y: "Interval_split (box_y b) = Inr (y1, y2)"
    and qs: "qs = [\<lparr>box_x = x1, box_y = y1\<rparr>, \<lparr>box_x = x1, box_y = y2\<rparr>,
           \<lparr>box_x = x2, box_y = y1\<rparr>, \<lparr>box_x = x2, box_y = y2\<rparr>]"
    by (rule Box2D_split_Inr)
  show ?thesis
    using assms(2) split_wf_interval[OF x] split_wf_interval[OF y]
    unfolding qs wf_box_def by auto
qed

section \<open>What one iteration does to the boxes\<close>

lemma put_mset:
  "put wl b = Inr wl' \<Longrightarrow> mset (map item wl') = add_mset b (mset (map item wl))"
  by (auto simp: put_def bindE_Inr_iff heappush_mset)

lemma put_all_mset:
  "put_all wl qs = Inr wl' \<Longrightarrow> mset (map item wl') = mset (map item wl) + mset qs"
proof (induction qs arbitrary: wl)
  case Nil
  then show ?case by simp
next
  case (Cons q qs)
  then obtain wl1 where "put wl q = Inr wl1" "put_all wl1 qs = Inr wl'"
    by (auto simp: bindE_Inr_iff)
  then show ?case using Cons.IH[of wl1] put_mset[of wl q wl1] by simp
qed

text \<open>
  An iteration takes one box out of the worklist. It then appends the box to
  \<^verbatim>\<open>nonnegative_on\<close>, or puts its four quarters into the worklist, or drops it.
\<close>

lemma iteration_cases:
  assumes "iteration f s = Inr s'"
  obtains (resolved) box rest v where
      "mset (map item (worklist s)) = add_mset box (mset rest)" "f box = Inr v"
      "\<not> can_be_negative v"
      "nonnegative_on s' = nonnegative_on s @ [box]" "mset (map item (worklist s')) = mset rest"
  | (split) box rest v qs where
      "mset (map item (worklist s)) = add_mset box (mset rest)" "f box = Inr v"
      "can_be_negative v" "can_be_nonnegative v" "Box2D_split box = Inr qs"
      "nonnegative_on s' = nonnegative_on s" "mset (map item (worklist s')) = mset (rest @ qs)"
  | (dropped) box rest v where
      "mset (map item (worklist s)) = add_mset box (mset rest)" "f box = Inr v"
      "can_be_negative v" "\<not> can_be_nonnegative v"
      "nonnegative_on s' = nonnegative_on s" "mset (map item (worklist s')) = mset rest"
proof -
  from assms obtain it wl v where pop: "heappop (worklist s) = Inr (it, wl)"
    and v: "f (item it) = Inr v"
    and rest: "(if can_be_negative v \<and> can_be_nonnegative v
          then bindE (Box2D_split (item it)) (\<lambda>quarters.
               bindE (put_all wl quarters) (\<lambda>wl'.
                 Inr \<lparr>nonnegative_on = (if \<not> can_be_negative v then nonnegative_on s @ [item it]
                       else nonnegative_on s), worklist = wl'\<rparr>))
          else Inr \<lparr>nonnegative_on = (if \<not> can_be_negative v then nonnegative_on s @ [item it]
                       else nonnegative_on s), worklist = wl\<rparr>) = Inr s'"
    by (auto simp: iteration_def bindE_Inr_iff Let_def)
  have m: "mset (map item (worklist s)) = add_mset (item it) (mset (map item wl))"
    using heappop_mset[OF pop] by simp
  show ?thesis
  proof (cases "can_be_negative v")
    case False
    then show ?thesis using rest m v by (intro resolved[of "item it" "map item wl" v]) auto
  next
    case neg: True
    show ?thesis
    proof (cases "can_be_nonnegative v")
      case False
      then show ?thesis using rest m v neg by (intro dropped[of "item it" "map item wl" v]) auto
    next
      case True
      with rest neg obtain qs wl' where qs: "Box2D_split (item it) = Inr qs"
        and pa: "put_all wl qs = Inr wl'"
        and s': "s' = \<lparr>nonnegative_on = nonnegative_on s, worklist = wl'\<rparr>"
        by (auto simp: bindE_Inr_iff)
      show ?thesis
        using put_all_mset[OF pa] m v neg True qs s'
        by (intro split[of "item it" "map item wl" v qs]) auto
    qed
  qed
qed

section \<open>The invariant of the search\<close>

lemma interior_disjoint_sym: "interior_disjoint b c \<Longrightarrow> interior_disjoint c b"
  by (auto simp: interior_disjoint_def)

lemma sorted_wrt_interior_perm:
  assumes "mset xs = mset ys" "sorted_wrt interior_disjoint xs"
  shows "sorted_wrt interior_disjoint ys"
  using assms
proof (induction xs arbitrary: ys)
  case Nil
  then show ?case by simp
next
  case (Cons x xs)
  have "x \<in> set ys" using Cons.prems(1) by (metis list.set_intros(1) set_mset_mset)
  then obtain as bs where ys: "ys = as @ x # bs" by (auto dest: split_list)
  have m: "mset xs = mset (as @ bs)" using Cons.prems(1) ys by simp
  then have s: "set xs = set (as @ bs)" by (rule mset_eq_setD)
  have "sorted_wrt interior_disjoint (as @ bs)"
    using Cons.IH[OF m] Cons.prems(2) by simp
  moreover have "\<forall>y\<in>set (as @ bs). interior_disjoint x y"
    using Cons.prems(2) s by simp
  ultimately show ?case
    unfolding ys by (auto simp: sorted_wrt_append dest: interior_disjoint_sym)
qed

lemma covers_perm: "mset xs = mset ys \<Longrightarrow> covers g d xs \<Longrightarrow> covers g d ys"
  by (auto simp: covers_def dest: mset_eq_setD)

lemma contained_perm: "mset xs = mset ys \<Longrightarrow> contained_in d xs \<Longrightarrow> contained_in d ys"
  by (auto simp: contained_in_def dest: mset_eq_setD)

lemma in_box_inside: "inside_box p b \<Longrightarrow> in_box p b"
  by (auto simp: inside_box_def in_box_def inside_interval_def in_interval_def dest: flt_imp_fle)

lemma split_keeps_invariant:
  assumes "Box2D_split box = Inr qs"
    and "covers g d (box # rest)" "sorted_wrt interior_disjoint (box # rest)"
    and "contained_in d (box # rest)"
  shows "covers g d (rest @ qs)" "sorted_wrt interior_disjoint (rest @ qs)"
    "contained_in d (rest @ qs)"
proof -
  show "covers g d (rest @ qs)"
    unfolding covers_def
  proof (intro allI impI)
    fix p assume "in_box p d \<and> 0 \<le> g p"
    then obtain b where b: "b \<in> set (box # rest)" "in_box p b"
      using assms(2) unfolding covers_def by blast
    show "\<exists>b\<in>set (rest @ qs). in_box p b"
    proof (cases "b = box")
      case True
      then show ?thesis using b(2) Box2D_split_cover[OF assms(1), of p] by auto
    next
      case False
      then show ?thesis using b by auto
    qed
  qed
  show "contained_in d (rest @ qs)"
    unfolding contained_in_def
  proof (intro ballI allI impI)
    fix b p assume b: "b \<in> set (rest @ qs)" "in_box p b"
    show "in_box p d"
    proof (cases "b \<in> set qs")
      case True
      then have "in_box p box" using b(2) Box2D_split_cover[OF assms(1), of p] by blast
      then show ?thesis using assms(4) unfolding contained_in_def by (simp del: split_paired_All)
    next
      case False
      then show ?thesis using b assms(4) unfolding contained_in_def by (simp del: split_paired_All)
    qed
  qed
  have "interior_disjoint r q" if "r \<in> set rest" "q \<in> set qs" for r q
  proof -
    have "interior_disjoint box r" using assms(3) that(1) by simp
    then show ?thesis
      using Box2D_split_inside[OF assms(1) that(2)] unfolding interior_disjoint_def by blast
  qed
  then show "sorted_wrt interior_disjoint (rest @ qs)"
    using assms(3) Box2D_split_disjoint[OF assms(1)] by (auto simp: sorted_wrt_append)
qed

lemma dropped_is_negative:
  assumes "extends f g" "f box = Inr v" "\<not> can_be_nonnegative v" "in_box p box"
  shows "g p < 0"
proof (rule ccontr)
  assume "\<not> g p < 0"
  then have "fle (Fin 0) (Fin (g p))" by simp
  moreover have "fle (Fin (g p)) (maxI v)"
    using assms(1,2,4) unfolding extends_def in_interval_def by blast
  ultimately have "fle (Fin 0) (maxI v)" by (rule fle_trans)
  then show False using assms(3) by (simp add: can_be_nonnegative_def)
qed

lemma iteration_invariant:
  assumes ext: "extends f g" and it: "iteration f s = Inr s'"
    and inv: "covers g d (all_boxes s)" "sorted_wrt interior_disjoint (all_boxes s)"
      "contained_in d (all_boxes s)"
  shows "covers g d (all_boxes s') \<and> sorted_wrt interior_disjoint (all_boxes s') \<and>
         contained_in d (all_boxes s')"
  using it
proof (cases rule: iteration_cases)
  case (resolved box rest v)
  then have "mset (all_boxes s) = mset (all_boxes s')" by (simp add: all_boxes_def)
  then show ?thesis
    using inv covers_perm contained_perm sorted_wrt_interior_perm by blast
next
  case (split box rest v qs)
  let ?r = "nonnegative_on s @ rest"
  have m: "mset (all_boxes s) = mset (box # ?r)" using split by (simp add: all_boxes_def)
  have m': "mset (?r @ qs) = mset (all_boxes s')" using split by (simp add: all_boxes_def)
  note a = covers_perm[OF m inv(1)] sorted_wrt_interior_perm[OF m inv(2)] contained_perm[OF m inv(3)]
  note b = split_keeps_invariant[OF split(5) a]
  show ?thesis
    using covers_perm[OF m' b(1)] sorted_wrt_interior_perm[OF m' b(2)] contained_perm[OF m' b(3)]
    by simp
next
  case (dropped box rest v)
  let ?r = "nonnegative_on s @ rest"
  have m: "mset (all_boxes s) = mset (box # ?r)" using dropped by (simp add: all_boxes_def)
  have m': "mset ?r = mset (all_boxes s')" using dropped by (simp add: all_boxes_def)
  note a = covers_perm[OF m inv(1)] sorted_wrt_interior_perm[OF m inv(2)] contained_perm[OF m inv(3)]
  have neg: "\<forall>p. in_box p box \<longrightarrow> g p < 0"
    using dropped_is_negative[OF ext dropped(2,4)] by blast
  have "covers g d ?r"
    unfolding covers_def
  proof (intro allI impI)
    fix p assume p: "in_box p d \<and> 0 \<le> g p"
    then obtain b where b: "b \<in> set (box # ?r)" "in_box p b"
      using a(1) unfolding covers_def by blast
    then have "b \<noteq> box" using neg p by fastforce
    then show "\<exists>b\<in>set ?r. in_box p b" using b by auto
  qed
  moreover have "sorted_wrt interior_disjoint ?r" using a(2) by simp
  moreover have "contained_in d ?r" using a(3) by (simp add: contained_in_def)
  ultimately show ?thesis
    using covers_perm[OF m'] sorted_wrt_interior_perm[OF m'] contained_perm[OF m'] by blast
qed

lemma loop_invariant:
  assumes "extends f g" "loop f n s = Inr s'"
    and "covers g d (all_boxes s)" "sorted_wrt interior_disjoint (all_boxes s)"
      "contained_in d (all_boxes s)"
  shows "covers g d (all_boxes s') \<and> sorted_wrt interior_disjoint (all_boxes s') \<and>
         contained_in d (all_boxes s')"
  using assms(2-)
proof (induction n arbitrary: s)
  case 0
  then show ?case by simp
next
  case (Suc n)
  show ?case
  proof (cases "worklist s = []")
    case True
    then show ?thesis using Suc.prems by simp
  next
    case False
    then obtain s1 where s1: "iteration f s = Inr s1" "loop f n s1 = Inr s'"
      using Suc.prems(1) by (auto simp: bindE_Inr_iff)
    from iteration_invariant[OF assms(1) s1(1) Suc.prems(2-)] Suc.IH[OF s1(2)]
    show ?thesis by blast
  qed
qed

lemma heappush_Nil [simp]: "heappush [] it = [it]"
proof -
  have "siftdown_loop [it] it 0 0 = ([it], 0)" by (subst siftdown_loop.simps) simp
  then show ?thesis by (simp add: heappush_def siftdown_def)
qed

lemma initial_state_boxes: "initial_state d = Inr s \<Longrightarrow> all_boxes s = [d]"
  by (auto simp: initial_state_def put_def bindE_Inr_iff all_boxes_def)

lemmas search_eval = search_def initial_state_def put_def iteration_def heappop_def heappush_def
  siftdown_def siftup_def siftdown_loop.simps siftup_loop.simps item_lt_def
  can_be_negative_def can_be_nonnegative_def

lemma area_unit: "Box2D_area unit_box = Inr \<lparr>minI = Fin (4503599627370493 / 2^52), maxI = Fin (4503599627370499 / 2^52)\<rparr>"
  by (simp add: model_eval fl_eval unit_box_def)

lemma initial_unit: "initial_state unit_box = Inr \<lparr>nonnegative_on = [], worklist = [\<lparr>priority = Fin (- 1), item = unit_box\<rparr>]\<rparr>"
  by (simp add: initial_state_def put_def area_unit bindE_def Interval_round_def fl_eval)

lemma split_unit: "Box2D_split unit_box = Inr (map item (worklist quartered))"
  by (simp add: model_eval fl_eval unit_box_def quartered_def quarter_def)

lemma area_quarter:
  "u \<in> {0, 1/2} \<Longrightarrow> v \<in> {0, 1/2} \<Longrightarrow> Box2D_area (item (quarter u v)) = Inr \<lparr>minI = Fin (4503599627370493 / 2^54), maxI = Fin (4503599627370499 / 2^54)\<rparr>"
  by (auto simp add: model_eval fl_eval quarter_def)

lemma put_quarter:
  "u \<in> {0, 1/2} \<Longrightarrow> v \<in> {0, 1/2} \<Longrightarrow> put wl (item (quarter u v)) = Inr (heappush wl (quarter u v))"
  by (simp add: put_def area_quarter bindE_def Interval_round_def fl_eval) (simp add: quarter_def)

lemma search_quartered: "search straddling unit_box 1 = Inr quartered"
  apply (simp add: search_def initial_unit bindE_def iteration_def heappop_def straddling_def
      can_be_negative_def can_be_nonnegative_def split_unit)
  apply (simp add: quartered_def put_quarter bindE_def)
  apply (simp add: heappush_def siftdown_def siftdown_loop.simps item_lt_def quarter_def)
  done

text \<open>
  C3, as the code has it. Before the loop and after every iteration that completes:
  every point of the domain at which the underlying function is non-negative lies in a
  box of \<^verbatim>\<open>nonnegative_on\<close> or of the worklist; any two of these boxes (two entries of
  the lists) have no interior point in common; and each of them lies in the domain. The
  boxes are closed and a split shares the pivot, so neighbours do meet on their edges.
\<close>

theorem search_invariant:
  assumes "extends f g" "search f domain n = Inr s"
  shows "(\<forall>p. in_box p domain \<and> 0 \<le> g p \<longrightarrow> (\<exists>b\<in>set (all_boxes s). in_box p b)) \<and>
         (\<forall>i j. i < j \<and> j < length (all_boxes s) \<longrightarrow>
                  interior_disjoint (all_boxes s ! i) (all_boxes s ! j)) \<and>
         (\<forall>b\<in>set (all_boxes s). \<forall>p. in_box p b \<longrightarrow> in_box p domain)"
proof -
  from assms(2) obtain s0 where s0: "initial_state domain = Inr s0" "loop f n s0 = Inr s"
    by (auto simp: search_def bindE_Inr_iff)
  have b: "all_boxes s0 = [domain]" by (rule initial_state_boxes[OF s0(1)])
  have "covers g domain (all_boxes s) \<and> sorted_wrt interior_disjoint (all_boxes s) \<and>
        contained_in domain (all_boxes s)"
    by (rule loop_invariant[OF assms(1) s0(2)]) (simp_all add: b covers_def contained_in_def)
  then show ?thesis
    by (simp add: covers_def contained_in_def sorted_wrt_iff_nth_less)
qed

theorem search_invariant_witness:
  "extends straddling (\<lambda>p. 0) \<and> search straddling unit_box 1 = Inr quartered \<and>
   covers (\<lambda>p. 0) unit_box (all_boxes quartered) \<and>
   sorted_wrt interior_disjoint (all_boxes quartered) \<and>
   contained_in unit_box (all_boxes quartered)"
proof -
  have e: "extends straddling (\<lambda>p. 0)"
    by (simp add: extends_def straddling_def in_interval_def)
  show ?thesis
    using search_invariant[OF e search_quartered] e search_quartered
    by (simp add: covers_def contained_in_def sorted_wrt_iff_nth_less)
qed

text \<open>
  C3 as stated asks for pairwise disjoint boxes. After one iteration on the unit square
  with a function that straddles zero, the point \<open>(1/4, 1/2)\<close> lies in the first and in
  the second box of the worklist.
\<close>

theorem shared_edge_counterexample:
  "search straddling unit_box 1 = Inr quartered \<and>
   in_box (1 / 4, 1 / 2) (all_boxes quartered ! 0) \<and>
   in_box (1 / 4, 1 / 2) (all_boxes quartered ! 1)"
  using search_quartered
  by (simp add: all_boxes_def quartered_def quarter_def in_box_def in_interval_def)

section \<open>The returned interval\<close>

lemma bindE_Inl [simp]: "bindE (Inl e) k = Inl e"
  by (simp add: bindE_def)

lemma bindE_Inr [simp]: "bindE (Inr v) k = k v"
  by (simp add: bindE_def)

lemma foldl_bindE_Inl:
  "foldl (\<lambda>total area. bindE total (\<lambda>t. bindE area (\<lambda>a. Interval_add t a))) (Inl e) xs = Inl e"
  by (induction xs) simp_all

lemma sum_areas_foldl:
  "sum_areas acc bs =
   foldl (\<lambda>total area. bindE total (\<lambda>t. bindE area (\<lambda>a. Interval_add t a)))
     (Inr acc) (map Box2D_area bs)"
proof (induction bs arbitrary: acc)
  case Nil
  then show ?case by simp
next
  case (Cons b bs)
  show ?case
  proof (cases "Box2D_area b")
    case (Inl e)
    then show ?thesis by (simp add: foldl_bindE_Inl)
  next
    case (Inr a)
    then show ?thesis
      by (cases "Interval_add acc a") (simp_all add: foldl_bindE_Inl Cons.IH)
  qed
qed

lemma singleton_zero [simp]: "Interval_singleton (Fin 0) = Inr (point_interval 0)"
  by (simp add: Interval_singleton_def Interval_def point_interval_def)

lemma bounds_wrapped: "bounds s = wrapped_bounds s"
  by (simp add: bounds_def wrapped_bounds_def interval_sum_def sum_areas_foldl comp_def)

text \<open>
  C8. Whether the loop stops on an empty worklist or on the budget, the value returned
  is the wrap of the two bounds the specification describes, computed from the lists
  \<^verbatim>\<open>nonnegative_on\<close> and \<^verbatim>\<open>worklist.queue\<close> of the state in which the loop stops.
\<close>

theorem probability_nonnegative_returns:
  "probability_nonnegative f domain iterations =
   bindE (search f domain (nat iterations)) wrapped_bounds"
proof -
  have "bounds = wrapped_bounds" by (rule ext) (rule bounds_wrapped)
  then show ?thesis
    by (cases "initial_state domain") (simp_all add: probability_nonnegative_def search_def bindE_def)
qed

section \<open>A function that is negative on the domain\<close>

lemma add_zero_zero [simp]:
  "Interval_add (point_interval 0) (point_interval 0) = Inr (point_interval 0)"
  by (simp add: Interval_add_def Interval_def bindE_def account_for_rounding_errors_def
      epsilon_def fsub_def point_interval_def)

lemma wrap_zero_zero [simp]:
  "Interval_wrap (point_interval 0) (point_interval 0) = Inr (point_interval 0)"
  by (simp add: Interval_wrap_def Interval_def py_min_def py_max_def point_interval_def)


lemma loop_empty: "worklist s = [] \<Longrightarrow> loop f n s = Inr s"
  by (cases n) simp_all

lemma heappop_single [simp]: "heappop [it] = Inr (it, [])"
  by (simp add: heappop_def)





section \<open>A domain that is a single point\<close>

lemma length_point: "Interval_length (point_interval u) = Inr (point_interval 0)"
  by (simp add: Interval_length_def Interval_singleton_def Interval_def
      account_for_rounding_errors_def fsub_def epsilon_def point_interval_def)

lemma mul_zero_zero [simp]:
  "Interval_mul (point_interval 0) (point_interval 0) = Inr (point_interval 0)"
  by (simp add: Interval_mul_def possibilities_def py_min_def py_max_def Interval_def
      account_for_rounding_errors_def fsub_def epsilon_def point_interval_def)

lemma area_point: "Box2D_area (point_box u v) = Inr (point_interval 0)"
  by (simp add: Box2D_area_def point_box_def length_point)

lemma round_zero [simp]: "Interval_round (point_interval 0) = Fin 0"
  by (simp add: Interval_round_def point_interval_def)

lemma initial_point:
  "initial_state (point_box u v)
   = Inr \<lparr>nonnegative_on = [], worklist = [\<lparr>priority = Fin 0, item = point_box u v\<rparr>]\<rparr>"
  by (simp add: initial_state_def put_def area_point)

text \<open>
  C6. The claim: on a domain that is a single point the result is \<open>[0, 0]\<close>, whatever
  \<open>f\<close> and the budget. The code at the point \<open>(2\<^sup>1\<^sup>0\<^sup>2\<^sup>3, 0)\<close> with a function that
  straddles zero: with no iteration the result is \<open>[0, 0]\<close>; with one, the split of the
  box raises, for the same overflow of the midpoint as in C9.
\<close>

theorem point_domain_overflow:
  "probability_nonnegative straddling (point_box (2 powi 1023) 0) 0 = Inr (point_interval 0) \<and>
   probability_nonnegative straddling (point_box (2 powi 1023) 0) 1 = Inl AssertionError"
proof -
  have "Interval_split (point_interval (2 powi 1023)) = Inl AssertionError"
    using fadd_overflow by (simp add: Interval_def Interval_split_def point_interval_def)
  then have "Box2D_split (point_box (2 powi 1023) 0) = Inl AssertionError"
    by (simp add: Box2D_split_def point_box_def)
  then have "iteration straddling
      \<lparr>nonnegative_on = [], worklist = [\<lparr>priority = Fin 0, item = point_box (2 powi 1023) 0\<rparr>]\<rparr>
      = Inl AssertionError"
    by (simp add: iteration_def straddling_def can_be_negative_def can_be_nonnegative_def)
  then show ?thesis
    by (simp add: probability_nonnegative_def initial_point bounds_def area_point)
qed

section \<open>Exact areas\<close>

lemma finite_intervalE:
  assumes "finite_interval i"
  obtains a b where "minI i = Fin a" "maxI i = Fin b" "a \<le> b"
  using assms unfolding finite_interval_def by (cases "minI i"; cases "maxI i") auto

lemma exact_length_nonneg: "finite_interval i \<Longrightarrow> 0 \<le> exact_length i"
  by (erule finite_intervalE) (simp add: exact_length_def)

lemma exact_area_nonneg: "finite_box b \<Longrightarrow> 0 \<le> exact_area b"
  by (simp add: finite_box_def exact_area_def exact_length_nonneg)

lemma split_finite_interval:
  assumes "Interval_split i = Inr (a, b)" "finite_interval i"
  shows "finite_interval a" "finite_interval b" "exact_length a + exact_length b = exact_length i"
proof -
  note s = Interval_split_Inr[OF assms(1)]
  from assms(2) obtain lo hi where i: "minI i = Fin lo" "maxI i = Fin hi" "lo \<le> hi"
    by (rule finite_intervalE)
  obtain p where p: "minI b = Fin p" "lo \<le> p" "p \<le> hi"
    using s(4,5) i by (cases "minI b") auto
  show "finite_interval a" "finite_interval b"
    using s i p by (simp_all add: finite_interval_def)
  show "exact_length a + exact_length b = exact_length i"
    using s i p by (simp add: exact_length_def)
qed

lemma split_finite_box:
  assumes "Box2D_split b = Inr qs" "finite_box b"
  shows "\<forall>q\<in>set qs. finite_box q" "sum_list (map exact_area qs) = exact_area b"
proof -
  from assms(1) obtain x1 x2 y1 y2 where
    x: "Interval_split (box_x b) = Inr (x1, x2)" and y: "Interval_split (box_y b) = Inr (y1, y2)"
    and qs: "qs = [\<lparr>box_x = x1, box_y = y1\<rparr>, \<lparr>box_x = x1, box_y = y2\<rparr>,
           \<lparr>box_x = x2, box_y = y1\<rparr>, \<lparr>box_x = x2, box_y = y2\<rparr>]"
    by (rule Box2D_split_Inr)
  have fx: "finite_interval (box_x b)" and fy: "finite_interval (box_y b)"
    using assms(2) by (simp_all add: finite_box_def)
  note sx = split_finite_interval[OF x fx] and sy = split_finite_interval[OF y fy]
  show "\<forall>q\<in>set qs. finite_box q"
    using sx(1,2) sy(1,2) by (simp add: qs finite_box_def)
  have "sum_list (map exact_area qs)
        = (exact_length x1 + exact_length x2) * (exact_length y1 + exact_length y2)"
    by (simp add: qs exact_area_def algebra_simps)
  then show "sum_list (map exact_area qs) = exact_area b"
    using sx(3) sy(3) by (simp add: exact_area_def)
qed

lemma sum_list_perm:
  assumes "mset xs = mset ys"
  shows "sum_list (map exact_area xs) = sum_list (map exact_area ys)"
proof -
  have "sum_mset (image_mset exact_area (mset xs)) = sum_mset (image_mset exact_area (mset ys))"
    using assms by simp
  then show ?thesis by (simp add: sum_mset_sum_list flip: mset_map)
qed

lemma iteration_areas:
  assumes "iteration f s = Inr s'" "\<forall>b\<in>set (all_boxes s). finite_box b"
  shows "(\<forall>b\<in>set (all_boxes s'). finite_box b) \<and> resolved_area s \<le> resolved_area s' \<and>
         enclosing_area s' \<le> enclosing_area s"
  using assms(1)
proof (cases rule: iteration_cases)
  case (resolved box rest v)
  have m: "mset (all_boxes s) = mset (box # nonnegative_on s @ rest)"
    using resolved by (simp add: all_boxes_def)
  have m': "mset (all_boxes s') = mset (all_boxes s)"
    using resolved by (simp add: all_boxes_def)
  have "finite_box box" using assms(2) mset_eq_setD[OF m] by simp
  then have "resolved_area s \<le> resolved_area s'"
    using resolved(4) exact_area_nonneg[of box] by (simp add: resolved_area_def)
  moreover have "enclosing_area s' = enclosing_area s"
    unfolding enclosing_area_def by (rule sum_list_perm[OF m'])
  moreover have "\<forall>b\<in>set (all_boxes s'). finite_box b"
    using assms(2) mset_eq_setD[OF m'] by simp
  ultimately show ?thesis by simp
next
  case (split box rest v qs)
  have m: "mset (all_boxes s) = mset (box # nonnegative_on s @ rest)"
    using split by (simp add: all_boxes_def)
  have m': "mset (all_boxes s') = mset ((nonnegative_on s @ rest) @ qs)"
    using split by (simp add: all_boxes_def)
  have fin: "\<forall>b\<in>set (box # nonnegative_on s @ rest). finite_box b"
    using assms(2) mset_eq_setD[OF m] by simp
  then have fb: "finite_box box" by simp
  note q = split_finite_box[OF split(5) fb]
  have "enclosing_area s = exact_area box + sum_list (map exact_area (nonnegative_on s @ rest))"
    unfolding enclosing_area_def by (subst sum_list_perm[OF m]) simp
  moreover have "enclosing_area s'
      = sum_list (map exact_area (nonnegative_on s @ rest)) + sum_list (map exact_area qs)"
    unfolding enclosing_area_def by (subst sum_list_perm[OF m']) simp
  ultimately have "enclosing_area s' = enclosing_area s" using q(2) by simp
  moreover have "\<forall>b\<in>set (all_boxes s'). finite_box b"
    using fin q(1) mset_eq_setD[OF m'] by auto
  ultimately show ?thesis using split(6) by (simp add: resolved_area_def)
next
  case (dropped box rest v)
  have m: "mset (all_boxes s) = mset (box # nonnegative_on s @ rest)"
    using dropped by (simp add: all_boxes_def)
  have m': "mset (all_boxes s') = mset (nonnegative_on s @ rest)"
    using dropped by (simp add: all_boxes_def)
  have fin: "\<forall>b\<in>set (box # nonnegative_on s @ rest). finite_box b"
    using assms(2) mset_eq_setD[OF m] by simp
  have "enclosing_area s = exact_area box + sum_list (map exact_area (nonnegative_on s @ rest))"
    unfolding enclosing_area_def by (subst sum_list_perm[OF m]) simp
  moreover have "enclosing_area s' = sum_list (map exact_area (nonnegative_on s @ rest))"
    unfolding enclosing_area_def by (subst sum_list_perm[OF m']) simp
  ultimately have "enclosing_area s' \<le> enclosing_area s"
    using exact_area_nonneg[of box] fin by simp
  moreover have "\<forall>b\<in>set (all_boxes s'). finite_box b"
    using fin mset_eq_setD[OF m'] by auto
  ultimately show ?thesis using dropped(5) by (simp add: resolved_area_def)
qed

lemma loop_areas:
  assumes "loop f n s = Inr s'" "\<forall>b\<in>set (all_boxes s). finite_box b"
  shows "(\<forall>b\<in>set (all_boxes s'). finite_box b) \<and> resolved_area s \<le> resolved_area s' \<and>
         enclosing_area s' \<le> enclosing_area s"
  using assms
proof (induction n arbitrary: s)
  case 0
  then show ?case by simp
next
  case (Suc n)
  show ?case
  proof (cases "worklist s = []")
    case True
    then show ?thesis using Suc.prems by simp
  next
    case False
    then obtain s1 where s1: "iteration f s = Inr s1" "loop f n s1 = Inr s'"
      using Suc.prems(1) by (auto simp: bindE_Inr_iff)
    note a = iteration_areas[OF s1(1) Suc.prems(2)]
    from a Suc.IH[OF s1(2)] show ?thesis by force
  qed
qed

lemma loop_add: "loop f (n + k) s = bindE (loop f n s) (loop f k)"
proof (induction n arbitrary: s)
  case 0
  then show ?case by simp
next
  case (Suc n)
  show ?case
  proof (cases "worklist s = []")
    case True
    then show ?thesis by (simp add: loop_empty)
  next
    case False
    then show ?thesis
      by (cases "iteration f s") (simp_all add: Suc.IH)
  qed
qed

lemma search_continues:
  assumes "n \<le> m" "search f domain n = Inr s"
  shows "search f domain m = loop f (m - n) s"
proof -
  have "m = n + (m - n)" using assms(1) by simp
  then have "search f domain m = bindE (search f domain n) (loop f (m - n))"
    unfolding search_def
    by (cases "initial_state domain") (simp_all add: loop_add[of f n "m - n", symmetric])
  then show ?thesis using assms(2) by simp
qed

lemma search_finite:
  assumes "finite_box domain" "search f domain n = Inr s"
  shows "\<forall>b\<in>set (all_boxes s). finite_box b"
proof -
  from assms(2) obtain s0 where s0: "initial_state domain = Inr s0" "loop f n s0 = Inr s"
    by (auto simp: search_def bindE_Inr_iff)
  have "\<forall>b\<in>set (all_boxes s0). finite_box b"
    using initial_state_boxes[OF s0(1)] assms(1) by simp
  from loop_areas[OF s0(2) this] show ?thesis by simp
qed

text \<open>
  C4, as the code has it. The returned interval is computed in floating point and every
  addition widens it, so it is the exact enclosure that tightens with the budget: over
  a domain with finite endpoints, the exact area of the resolved boxes never shrinks and
  the exact area of the resolved and pending boxes never grows.
\<close>

theorem budget_tightens_exact_bounds:
  assumes "finite_box domain" "n \<le> m"
    "search f domain n = Inr s" "search f domain m = Inr s'"
  shows "resolved_area s \<le> resolved_area s' \<and> enclosing_area s' \<le> enclosing_area s"
proof -
  have "loop f (m - n) s = Inr s'"
    using search_continues[OF assms(2,3)] assms(4) by simp
  from loop_areas[OF this search_finite[OF assms(1,3)]] show ?thesis by simp
qed

lemma probability_nonnegative_search:
  "probability_nonnegative f domain iterations = bindE (search f domain (nat iterations)) bounds"
  by (cases "initial_state domain") (simp_all add: probability_nonnegative_def search_def)

theorem budget_tightens_exact_bounds_witness:
  "finite_box unit_box \<and> (0::nat) \<le> 1 \<and>
   search straddling unit_box 0 = Inr undivided \<and>
   search straddling unit_box 1 = Inr quartered \<and>
   resolved_area undivided \<le> resolved_area quartered \<and>
   enclosing_area quartered \<le> enclosing_area undivided"
proof -
  have f: "finite_box unit_box"
    by (simp add: finite_box_def finite_interval_def unit_box_def)
  have z: "search straddling unit_box 0 = Inr undivided"
    by (simp add: search_def initial_unit undivided_def)
  show ?thesis
    using budget_tightens_exact_bounds[OF f _ z search_quartered] f z search_quartered by simp
qed

text \<open>
  C4 as stated compares the returned intervals. On the unit square, with a function
  that straddles zero, the budget 0 returns \<open>[0, 1 + 5\<epsilon>]\<close> and the budget 1 returns
  \<open>[0, 1 + 7\<epsilon>]\<close>: the four quarters have the area of the square, and their sum takes
  three more inflated additions.
\<close>

theorem wider_with_budget_counterexample:
  "probability_nonnegative straddling unit_box 0
     = Inr \<lparr>minI = Fin 0, maxI = Fin (4503599627370501 / 2 ^ 52)\<rparr> \<and>
   probability_nonnegative straddling unit_box 1
     = Inr \<lparr>minI = Fin 0, maxI = Fin (4503599627370503 / 2 ^ 52)\<rparr> \<and>
   flt (Fin (4503599627370501 / 2 ^ 52)) (Fin (4503599627370503 / 2 ^ 52))"
proof -
  have a: "probability_nonnegative straddling unit_box 0
     = Inr \<lparr>minI = Fin 0, maxI = Fin (4503599627370501 / 2 ^ 52)\<rparr>"
    by (simp add: probability_nonnegative_def initial_unit bounds_def area_unit)
       (simp add: model_eval fl_eval point_interval_def)
  have q: "sum_areas (point_interval 0) (map item (worklist quartered))
     = Inr \<lparr>minI = Fin (4503599627370491 / 2 ^ 52), maxI = Fin (4503599627370502 / 2 ^ 52)\<rparr>"
    by (simp add: quartered_def area_quarter)
       (simp add: model_eval fl_eval point_interval_def)
  have "bounds quartered = Inr \<lparr>minI = Fin 0, maxI = Fin (4503599627370503 / 2 ^ 52)\<rparr>"
    by (simp add: bounds_def q) (simp add: quartered_def model_eval fl_eval point_interval_def)
  then have b: "probability_nonnegative straddling unit_box 1
     = Inr \<lparr>minI = Fin 0, maxI = Fin (4503599627370503 / 2 ^ 52)\<rparr>"
    using search_quartered by (simp add: probability_nonnegative_search)
  show ?thesis using a b by simp
qed

section \<open>Rounding keeps the sign\<close>

lemma round_even_error: "\<bar>of_int (round_even r) - r\<bar> \<le> 1 / 2"
proof -
  have "of_int \<lfloor>r\<rfloor> \<le> r" "r < of_int \<lfloor>r\<rfloor> + 1" by linarith+
  then show ?thesis by (auto simp: round_even_def Let_def)
qed

lemma round_even_nonneg: "0 \<le> r \<Longrightarrow> 0 \<le> round_even r"
proof -
  assume "0 \<le> r"
  then have "0 \<le> \<lfloor>r\<rfloor>" by simp
  then show ?thesis by (auto simp: round_even_def Let_def)
qed

lemma quantum_pos: "0 < quantum x"
  by (simp add: quantum_def)

lemma quantum_least: "2 powi (- 1074) \<le> quantum x"
  unfolding quantum_def by (rule power_int_increasing) simp_all

lemma quantum_le:
  assumes "x \<noteq> 0"
  shows "quantum x \<le> max (\<bar>x\<bar> * 2 powi (- 52)) (2 powi (- 1074))"
proof (cases "- 1022 \<le> expo x")
  case True
  then have "quantum x = 2 powi (expo x) * 2 powi (- 52)"
    by (simp add: quantum_def max_def power_int_diff power_int_minus field_simps)
  also have "\<dots> \<le> \<bar>x\<bar> * 2 powi (- 52)"
    using expo_bounds(1)[OF assms] by (simp add: mult_right_mono)
  finally show ?thesis by simp
next
  case False
  then have "quantum x = 2 powi (- 1074)" by (simp add: quantum_def max_def)
  then show ?thesis by simp
qed

lemma fl_error: "\<bar>fl x - x\<bar> \<le> quantum x / 2"
proof -
  let ?q = "quantum x"
  have q: "0 < ?q" by (rule quantum_pos)
  have "fl x - x = (of_int (round_even (x / ?q)) - x / ?q) * ?q"
    using q by (simp add: fl_def field_simps)
  then have "\<bar>fl x - x\<bar> = \<bar>of_int (round_even (x / ?q)) - x / ?q\<bar> * ?q"
    using q by (simp add: abs_mult)
  also have "\<dots> \<le> 1 / 2 * ?q"
    using round_even_error[of "x / ?q"] q by (intro mult_right_mono) simp_all
  finally show ?thesis by simp
qed

lemma fl_nonneg: "0 \<le> x \<Longrightarrow> 0 \<le> fl x"
  using round_even_nonneg[of "x / quantum x"] quantum_pos[of x] by (simp add: fl_def)

lemma fl_zero_or_least: "fl x = 0 \<or> 2 powi (- 1074) \<le> \<bar>fl x\<bar>"
proof (cases "round_even (x / quantum x) = 0")
  case True
  then show ?thesis by (simp add: fl_def)
next
  case False
  then have "1 \<le> \<bar>round_even (x / quantum x)\<bar>" by simp
  then have "(1::real) \<le> \<bar>of_int (round_even (x / quantum x))\<bar>"
    by (metis of_int_1 of_int_abs of_int_le_iff)
  then have "quantum x \<le> \<bar>of_int (round_even (x / quantum x))\<bar> * quantum x"
    using quantum_pos[of x] by simp
  then have "quantum x \<le> \<bar>fl x\<bar>"
    using quantum_pos[of x] by (simp add: fl_def abs_mult)
  then show ?thesis using quantum_least[of x] by simp
qed

lemma fl_scaled_le:
  assumes "2 powi (- 1074) \<le> v"
  shows "fl (v * 2 powi (- 52)) \<le> v"
proof -
  have v: "0 < v" using assms by (smt (verit) zero_less_power_int)
  let ?y = "v * 2 powi (- 52)"
  have y: "0 < ?y" using v by simp
  have small: "(2::real) powi (- 52) \<le> 1 / 4" by (simp add: power_int_minus)
  have "quantum ?y \<le> max (\<bar>?y\<bar> * 2 powi (- 52)) (2 powi (- 1074))"
    using y by (intro quantum_le) simp
  also have "\<dots> \<le> v"
  proof -
    have "?y * 2 powi (- 52) \<le> v * (1 / 4) * (1 / 4)"
      using v small by (intro mult_mono) simp_all
    then show ?thesis using y v assms by simp
  qed
  finally have q: "quantum ?y \<le> v" .
  have "fl ?y \<le> ?y + quantum ?y / 2" using fl_error[of ?y] by linarith
  moreover have "?y \<le> v * (1 / 4)" using v small by (intro mult_left_mono) simp_all
  ultimately show ?thesis using q v by linarith
qed

lemma rnd_nonneg: "0 \<le> x \<Longrightarrow> nonneg_float (rnd x)"
  using fl_nonneg[of x] fl_zero_or_least[of x]
  by (auto simp: rnd_def Let_def nonneg_float_def)

lemma nonneg_float_fle: "nonneg_float t \<Longrightarrow> fle (Fin 0) t"
  by (cases t) (simp_all add: nonneg_float_def)

lemma fadd_nonneg: "nonneg_float a \<Longrightarrow> nonneg_float b \<Longrightarrow> nonneg_float (fadd a b)"
  by (cases a; cases b) (auto simp: nonneg_float_def[of "Fin _"] nonneg_float_def[of NInf]
      nonneg_float_def[of NaN] nonneg_float_def[of PInf] intro: rnd_nonneg)

lemma fmul_nonneg:
  assumes "fle (Fin 0) a" "fle (Fin 0) b"
  shows "fmul a b = NaN \<or> nonneg_float (fmul a b)"
proof (cases a)
  case (Fin u)
  show ?thesis
  proof (cases b)
    case (Fin v)
    then show ?thesis using assms \<open>a = Fin u\<close> by (simp add: rnd_nonneg)
  qed (use assms \<open>a = Fin u\<close> in \<open>auto simp: nonneg_float_def\<close>)
next
  case PInf
  then show ?thesis using assms by (cases b) (auto simp: nonneg_float_def)
qed (use assms in auto)

lemma deflate_nonneg:
  assumes "nonneg_float c" "fle (fsub c (fmul (fabs c) epsilon)) hi"
  shows "nonneg_float (fsub c (fmul (fabs c) epsilon))"
proof (cases c)
  case (Fin v)
  show ?thesis
  proof (cases "v = 0")
    case True
    then show ?thesis by (simp add: Fin fsub_def epsilon_def nonneg_float_def)
  next
    case False
    then have v: "2 powi (- 1074) \<le> v" "0 \<le> v" "v < 2 powi 1024"
      using assms(1) Fin by (simp_all add: nonneg_float_def)
    let ?w = "fl (v * 2 powi (- 52))"
    have w: "0 \<le> ?w" "?w \<le> v" using fl_nonneg[of "v * 2 powi (- 52)"] fl_scaled_le[OF v(1)] v(2) by simp_all
    then have "rnd (v * 2 powi (- 52)) = Fin ?w" using v(3) by (simp add: rnd_def)
    then have "fsub c (fmul (fabs c) epsilon) = rnd (v - ?w)"
      using v(2) by (simp add: Fin fsub_def epsilon_def)
    then show ?thesis using w rnd_nonneg[of "v - ?w"] by simp
  qed
next
  case PInf
  then show ?thesis using assms(2) by (simp add: fsub_def epsilon_def)
qed (use assms(1) in \<open>simp_all add: nonneg_float_def\<close>)

lemma account_nonneg:
  assumes "account_for_rounding_errors i = Inr j" "nonneg_float (minI i)"
  shows "nonneg_float (minI j)"
  using assms deflate_nonneg[of "minI i"]
  by (auto simp: account_for_rounding_errors_def Interval_Inr_iff)

lemma Interval_add_nonneg:
  assumes "Interval_add s t = Inr r" "nonneg_float (minI s)" "nonneg_float (minI t)"
  shows "nonneg_float (minI r)"
proof -
  from assms(1) obtain i where i: "Interval (fadd (minI s) (minI t)) (fadd (maxI s) (maxI t)) = Inr i"
    "account_for_rounding_errors i = Inr r"
    by (auto simp: Interval_add_def bindE_Inr_iff)
  have "nonneg_float (minI i)" using i(1) fadd_nonneg[OF assms(2,3)] by (auto simp: Interval_Inr_iff)
  then show ?thesis by (rule account_nonneg[OF i(2)])
qed

lemma fsub_wf_nonneg:
  assumes "fle lo hi" "fle (fsub hi lo) (fsub hi lo)"
  shows "nonneg_float (fsub hi lo)"
  using assms
  by (cases lo; cases hi) (auto simp: fsub_def nonneg_float_def[of PInf] intro: rnd_nonneg)

lemma Interval_length_nonneg:
  assumes "Interval_length i = Inr l" "wf_interval i"
  shows "nonneg_float (minI l)"
proof -
  from assms(1) obtain d where d: "Interval_singleton (fsub (maxI i) (minI i)) = Inr d"
    "account_for_rounding_errors d = Inr l"
    by (auto simp: Interval_length_def bindE_Inr_iff)
  have "nonneg_float (minI d)"
    using d(1) assms(2) fsub_wf_nonneg[of "minI i" "maxI i"]
    by (auto simp: Interval_singleton_def Interval_Inr_iff wf_interval_def)
  then show ?thesis by (rule account_nonneg[OF d(2)])
qed

lemma py_min_nonneg:
  assumes "a \<noteq> NaN" "a = NaN \<or> nonneg_float a" "\<forall>b\<in>set bs. b = NaN \<or> nonneg_float b"
  shows "nonneg_float (py_min a bs)"
  using assms unfolding py_min_def
proof (induction bs arbitrary: a)
  case Nil
  then show ?case by simp
next
  case (Cons b bs)
  show ?case
  proof (cases "flt b a")
    case True
    then have "b \<noteq> NaN" by (cases b; cases a) simp_all
    then show ?thesis using Cons.IH[of b] Cons.prems True by simp
  next
    case False
    then show ?thesis using Cons.IH[of a] Cons.prems by simp
  qed
qed

lemma flt_NaN_right [simp]: "\<not> flt b NaN"
  by (cases b) simp_all

lemma fle_NaN_right [simp]: "\<not> fle b NaN"
  by (cases b) simp_all

lemma account_wf: "account_for_rounding_errors i = Inr j \<Longrightarrow> wf_interval j"
  by (auto simp: account_for_rounding_errors_def Interval_Inr_iff wf_interval_def)

lemma Interval_length_wf: "Interval_length i = Inr l \<Longrightarrow> wf_interval l"
  by (auto simp: Interval_length_def bindE_Inr_iff dest: account_wf)

lemma Interval_mul_nonneg:
  assumes "Interval_mul s t = Inr r" "nonneg_float (minI s)" "nonneg_float (minI t)"
    "wf_interval s" "wf_interval t"
  shows "nonneg_float (minI r)"
proof -
  let ?a = "minI s" and ?c = "maxI s" and ?b = "minI t" and ?d = "maxI t"
  have pos: "fle (Fin 0) ?a" "fle (Fin 0) ?b" "fle (Fin 0) ?c" "fle (Fin 0) ?d"
    using assms(2-5) by (auto simp: wf_interval_def dest: nonneg_float_fle intro: fle_trans)
  from assms(1) obtain i where
    i: "Interval (py_min (fmul ?a ?b) [fmul ?a ?d, fmul ?c ?b, fmul ?c ?d])
                 (py_max (fmul ?a ?b) [fmul ?a ?d, fmul ?c ?b, fmul ?c ?d]) = Inr i"
    "account_for_rounding_errors i = Inr r"
    by (auto simp: Interval_mul_def possibilities_def bindE_Inr_iff)
  have first: "fmul ?a ?b \<noteq> NaN"
  proof
    assume "fmul ?a ?b = NaN"
    then have "py_min (fmul ?a ?b) [fmul ?a ?d, fmul ?c ?b, fmul ?c ?d] = NaN"
      by (simp add: py_min_def)
    then show False using i(1) by (simp add: Interval_Inr_iff)
  qed
  have "nonneg_float (py_min (fmul ?a ?b) [fmul ?a ?d, fmul ?c ?b, fmul ?c ?d])"
    using first fmul_nonneg pos by (intro py_min_nonneg) auto
  then have "nonneg_float (minI i)" using i(1) by (auto simp: Interval_Inr_iff)
  then show ?thesis by (rule account_nonneg[OF i(2)])
qed

lemma Box2D_area_nonneg:
  assumes "Box2D_area b = Inr a" "wf_box b"
  shows "nonneg_float (minI a)"
proof -
  from assms(1) obtain lx ly where l: "Interval_length (box_x b) = Inr lx"
    "Interval_length (box_y b) = Inr ly" "Interval_mul lx ly = Inr a"
    by (auto simp: Box2D_area_def bindE_Inr_iff)
  show ?thesis
    using Interval_mul_nonneg[OF l(3)] Interval_length_nonneg[OF l(1)] Interval_length_nonneg[OF l(2)]
      Interval_length_wf[OF l(1)] Interval_length_wf[OF l(2)] assms(2)
    by (simp add: wf_box_def)
qed

lemma sum_areas_nonneg:
  assumes "sum_areas acc bs = Inr r" "nonneg_float (minI acc)" "\<forall>b\<in>set bs. wf_box b"
  shows "nonneg_float (minI r)"
  using assms
proof (induction bs arbitrary: acc)
  case Nil
  then show ?case by simp
next
  case (Cons b bs)
  from Cons.prems(1) obtain a acc' where s: "Box2D_area b = Inr a" "Interval_add acc a = Inr acc'"
    "sum_areas acc' bs = Inr r"
    by (auto simp: bindE_Inr_iff)
  have "nonneg_float (minI a)" using Box2D_area_nonneg[OF s(1)] Cons.prems(3) by simp
  then have "nonneg_float (minI acc')" using Interval_add_nonneg[OF s(2) Cons.prems(2)] by simp
  then show ?case using Cons.IH[OF s(3)] Cons.prems(3) by simp
qed

lemma bounds_nonneg:
  assumes "bounds s = Inr r" "\<forall>b\<in>set (all_boxes s). wf_box b"
  shows "fle (Fin 0) (minI r) \<and> fle (minI r) (maxI r)"
proof -
  from assms(1) obtain lower rest upper where
    b: "sum_areas (point_interval 0) (nonnegative_on s) = Inr lower"
    "sum_areas (point_interval 0) (map item (worklist s)) = Inr rest"
    "Interval_add lower rest = Inr upper" "Interval_wrap lower upper = Inr r"
    by (auto simp: bounds_def bindE_Inr_iff)
  have z: "nonneg_float (minI (point_interval 0))" by (simp add: point_interval_def nonneg_float_def)
  have l: "nonneg_float (minI lower)"
    using sum_areas_nonneg[OF b(1) z] assms(2) by (simp add: all_boxes_def)
  have "nonneg_float (minI rest)"
    using sum_areas_nonneg[OF b(2) z] assms(2) by (simp add: all_boxes_def)
  then have u: "nonneg_float (minI upper)" using Interval_add_nonneg[OF b(3) l] by simp
  have "minI r = minI lower \<or> minI r = minI upper" "fle (minI r) (maxI r)"
    using b(4) by (auto simp: Interval_wrap_def Interval_Inr_iff py_min_def)
  then show ?thesis using l u nonneg_float_fle by auto
qed

section \<open>Every box of the search is well formed\<close>

lemma iteration_wf:
  assumes "iteration f s = Inr s'" "\<forall>b\<in>set (all_boxes s). wf_box b"
  shows "\<forall>b\<in>set (all_boxes s'). wf_box b"
  using assms(1)
proof (cases rule: iteration_cases)
  case (resolved box rest v)
  have "mset (all_boxes s') = mset (all_boxes s)" using resolved by (simp add: all_boxes_def)
  then show ?thesis using assms(2) mset_eq_setD by blast
next
  case (split box rest v qs)
  have m: "mset (all_boxes s) = mset (box # nonnegative_on s @ rest)"
    using split by (simp add: all_boxes_def)
  have m': "mset (all_boxes s') = mset ((nonnegative_on s @ rest) @ qs)"
    using split by (simp add: all_boxes_def)
  have "\<forall>b\<in>set (box # nonnegative_on s @ rest). wf_box b"
    using assms(2) mset_eq_setD[OF m] by simp
  then show ?thesis
    using Box2D_split_wf[OF split(5)] mset_eq_setD[OF m'] by auto
next
  case (dropped box rest v)
  have m: "mset (all_boxes s) = mset (box # nonnegative_on s @ rest)"
    using dropped by (simp add: all_boxes_def)
  have m': "mset (all_boxes s') = mset (nonnegative_on s @ rest)"
    using dropped by (simp add: all_boxes_def)
  have "\<forall>b\<in>set (box # nonnegative_on s @ rest). wf_box b"
    using assms(2) mset_eq_setD[OF m] by simp
  then show ?thesis using mset_eq_setD[OF m'] by auto
qed

lemma loop_wf:
  assumes "loop f n s = Inr s'" "\<forall>b\<in>set (all_boxes s). wf_box b"
  shows "\<forall>b\<in>set (all_boxes s'). wf_box b"
  using assms
proof (induction n arbitrary: s)
  case 0
  then show ?case by simp
next
  case (Suc n)
  show ?case
  proof (cases "worklist s = []")
    case True
    then show ?thesis using Suc.prems by simp
  next
    case False
    then obtain s1 where s1: "iteration f s = Inr s1" "loop f n s1 = Inr s'"
      using Suc.prems(1) by (auto simp: bindE_Inr_iff)
    show ?thesis by (rule Suc.IH[OF s1(2) iteration_wf[OF s1(1) Suc.prems(2)]])
  qed
qed

lemma search_wf:
  assumes "wf_box domain" "search f domain n = Inr s"
  shows "\<forall>b\<in>set (all_boxes s). wf_box b"
proof -
  from assms(2) obtain s0 where s0: "initial_state domain = Inr s0" "loop f n s0 = Inr s"
    by (auto simp: search_def bindE_Inr_iff)
  have "\<forall>b\<in>set (all_boxes s0). wf_box b"
    using initial_state_boxes[OF s0(1)] assms(1) by simp
  then show ?thesis by (rule loop_wf[OF s0(2)])
qed

text \<open>
  C10. Whenever \<^verbatim>\<open>probability_nonnegative\<close> returns an interval, for a domain built from
  intervals that satisfy the invariant of the class, the interval \<open>r\<close> satisfies
  \<open>0 \<le> r.min \<le> r.max\<close>.
\<close>

theorem returned_interval_nonnegative:
  assumes "wf_box domain" "probability_nonnegative f domain iterations = Inr r"
  shows "fle (Fin 0) (minI r) \<and> fle (minI r) (maxI r)"
proof -
  from assms(2) obtain s where s: "search f domain (nat iterations) = Inr s" "bounds s = Inr r"
    by (auto simp: probability_nonnegative_search bindE_Inr_iff)
  show ?thesis by (rule bounds_nonneg[OF s(2) search_wf[OF assms(1) s(1)]])
qed

lemma always_one_unit:
  "probability_nonnegative always_one unit_box 1
   = Inr \<lparr>minI = Fin (4503599627370491 / 2 ^ 52), maxI = Fin (4503599627370501 / 2 ^ 52)\<rparr>"
proof -
  have "search always_one unit_box 1 = Inr \<lparr>nonnegative_on = [unit_box], worklist = []\<rparr>"
    by (simp add: search_def initial_unit iteration_def always_one_def can_be_negative_def)
  moreover have "bounds \<lparr>nonnegative_on = [unit_box], worklist = []\<rparr>
    = Inr \<lparr>minI = Fin (4503599627370491 / 2 ^ 52), maxI = Fin (4503599627370501 / 2 ^ 52)\<rparr>"
    by (simp add: bounds_def area_unit) (simp add: model_eval fl_eval point_interval_def)
  ultimately show ?thesis by (simp add: probability_nonnegative_search)
qed

theorem returned_interval_nonnegative_witness:
  "wf_box unit_box \<and>
   probability_nonnegative always_one unit_box 1
     = Inr \<lparr>minI = Fin (4503599627370491 / 2 ^ 52), maxI = Fin (4503599627370501 / 2 ^ 52)\<rparr> \<and>
   fle (Fin 0) (Fin (4503599627370491 / 2 ^ 52)) \<and>
   fle (Fin (4503599627370491 / 2 ^ 52)) (Fin (4503599627370501 / 2 ^ 52))"
proof -
  have w: "wf_box unit_box" by (simp add: wf_box_def wf_interval_def unit_box_def)
  show ?thesis
    using returned_interval_nonnegative[OF w always_one_unit] w always_one_unit by simp
qed

lemma expo_scale:
  assumes "x \<noteq> 0"
  shows "expo (x * 2 ^ k) = expo x + int k"
proof (induction k)
  case 0
  then show ?case by simp
next
  case (Suc k)
  have "expo (2 * (x * 2 ^ k)) = expo (x * 2 ^ k) + 1"
    using assms by (intro expo_double) simp
  then show ?case using Suc by (simp add: mult.commute mult.left_commute)
qed

lemma expo_jump:
  "x \<noteq> 0 \<Longrightarrow>
   expo x = (if \<bar>x\<bar> < 1 / 2 ^ 256 then expo (x * 2 ^ 256) - 256
             else if \<bar>x\<bar> < 1 / 2 ^ 32 then expo (x * 2 ^ 32) - 32
             else if \<bar>x\<bar> < 1 / 2 ^ 4 then expo (x * 2 ^ 4) - 4
             else if \<bar>x\<bar> < 1 then expo (2 * x) - 1
             else if 2 \<le> \<bar>x\<bar> then expo (x / 2) + 1 else 0)"
  using expo_scale[of x 256] expo_scale[of x 32] expo_scale[of x 4]
    expo_double[of x] expo_half[of x] expo_unit[of x]
  by (simp del: power_numeral)

lemmas expo_small =
  expo_jump[of "numeral a / numeral b" for a b]
  expo_jump[of "1 / numeral b" for b]

lemmas fl_eval_small = rnd_def fl_def quantum_def round_even_def Let_def expo_small power_int_minus

section \<open>Areas that underflow\<close>

text \<open>
  The length of an interval \<open>[u, u + d]\<close> whose width \<open>d\<close> is a power of two, and the area
  of a box of two such lengths when every endpoint product rounds to the same \<open>q\<close>.
\<close>

lemma length_pow2:
  assumes "rnd (hi - lo) = Fin d" "0 \<le> d" "rnd (d * 2 powi (- 52)) = Fin e"
    "rnd (d - e) = Fin l" "rnd (d + e) = Fin h" "l \<le> h"
  shows "Interval_length \<lparr>minI = Fin lo, maxI = Fin hi\<rparr> = Inr \<lparr>minI = Fin l, maxI = Fin h\<rparr>"
  using assms
  by (simp add: Interval_length_def Interval_singleton_def Interval_def
      account_for_rounding_errors_def fsub_def epsilon_def)

lemma mul_one_product:
  assumes "rnd (l * l) = Fin q" "rnd (l * h) = Fin q" "rnd (h * l) = Fin q" "rnd (h * h) = Fin q"
    "0 \<le> q" "rnd (q * 2 powi (- 52)) = Fin 0" "rnd q = Fin q"
  shows "Interval_mul \<lparr>minI = Fin l, maxI = Fin h\<rparr> \<lparr>minI = Fin l, maxI = Fin h\<rparr>
         = Inr (point_interval q)"
  using assms
  by (simp add: Interval_mul_def possibilities_def py_min_def py_max_def Interval_def
      account_for_rounding_errors_def fsub_def epsilon_def point_interval_def)

lemma area_corner:
  "Box2D_area (corner_box (2 powi (- 537))) = Inr (point_interval (2 powi (- 1074)))"
proof -
  define l h :: real where "l = 4503599627370495 * 2 powi (- 589)"
    and "h = 4503599627370497 * 2 powi (- 589)"
  have len: "Interval_length \<lparr>minI = Fin 0, maxI = Fin (2 powi (- 537))\<rparr>
      = Inr \<lparr>minI = Fin l, maxI = Fin h\<rparr>"
    unfolding l_def h_def
    by (rule length_pow2[where d = "2 powi (- 537)" and e = "2 powi (- 589)"])
       (simp_all add: fl_eval_small)
  have mul: "Interval_mul \<lparr>minI = Fin l, maxI = Fin h\<rparr> \<lparr>minI = Fin l, maxI = Fin h\<rparr>
      = Inr (point_interval (2 powi (- 1074)))"
    unfolding l_def h_def by (rule mul_one_product) (simp_all add: fl_eval_small)
  show ?thesis using len mul by (simp add: Box2D_area_def corner_box_def)
qed

lemma area_corner_quarter:
  assumes "lo \<in> {0, 2 powi (- 538)}" "lo' \<in> {0, 2 powi (- 538)}"
  shows "Box2D_area \<lparr>box_x = \<lparr>minI = Fin lo, maxI = Fin (lo + 2 powi (- 538))\<rparr>,
                     box_y = \<lparr>minI = Fin lo', maxI = Fin (lo' + 2 powi (- 538))\<rparr>\<rparr>
         = Inr (point_interval 0)"
proof -
  define l h :: real where "l = 4503599627370495 * 2 powi (- 590)"
    and "h = 4503599627370497 * 2 powi (- 590)"
  have len: "Interval_length \<lparr>minI = Fin u, maxI = Fin (u + 2 powi (- 538))\<rparr>
      = Inr \<lparr>minI = Fin l, maxI = Fin h\<rparr>" for u
    unfolding l_def h_def
    by (rule length_pow2[where d = "2 powi (- 538)" and e = "2 powi (- 590)"])
       (simp_all add: fl_eval_small)
  have mul: "Interval_mul \<lparr>minI = Fin l, maxI = Fin h\<rparr> \<lparr>minI = Fin l, maxI = Fin h\<rparr>
      = Inr (point_interval 0)"
    unfolding l_def h_def by (rule mul_one_product) (simp_all add: fl_eval_small)
  show ?thesis using len[of lo] len[of lo'] mul by (simp add: Box2D_area_def)
qed

lemma split_corner:
  "Box2D_split (corner_box (2 powi (- 537))) = Inr (corner_quarters (2 powi (- 537)))"
proof -
  have "rnd (2 powi (- 537)) = Fin (2 powi (- 537))"
    "rnd (2 powi (- 537) / 2) = Fin (2 powi (- 537) / 2)"
    by (simp_all add: fl_eval_small)
  then have "Interval_split \<lparr>minI = Fin 0, maxI = Fin (2 powi (- 537))\<rparr>
    = Inr (\<lparr>minI = Fin 0, maxI = Fin (2 powi (- 537) / 2)\<rparr>,
           \<lparr>minI = Fin (2 powi (- 537) / 2), maxI = Fin (2 powi (- 537))\<rparr>)"
    by (simp add: Interval_split_def Interval_def Let_def)
  then show ?thesis
    by (simp add: Box2D_split_def corner_box_def corner_quarters_def Let_def)
qed

text \<open>
  C7. The claim: the four quarters of a box tile it, and the interval sum of their
  areas equals the area of the box up to the rounding tolerance. The code on the box
  \<open>[0, 2\<^sup>-\<^sup>5\<^sup>3\<^sup>7] \<times> [0, 2\<^sup>-\<^sup>5\<^sup>3\<^sup>7]\<close>: its area is computed as \<open>[2\<^sup>-\<^sup>1\<^sup>0\<^sup>7\<^sup>4, 2\<^sup>-\<^sup>1\<^sup>0\<^sup>7\<^sup>4]\<close>, the
  area of each quarter underflows to \<open>[0, 0]\<close>, and so does their sum.
\<close>

theorem quarters_lose_area:
  "Box2D_area (corner_box (2 powi (- 537))) = Inr (point_interval (2 powi (- 1074))) \<and>
   Box2D_split (corner_box (2 powi (- 537))) = Inr (corner_quarters (2 powi (- 537))) \<and>
   sum_areas (point_interval 0) (corner_quarters (2 powi (- 537))) = Inr (point_interval 0)"
proof -
  have h: "2 powi (- 537) / 2 = (2::real) powi (- 538)"
    "(2::real) powi (- 537) = 2 powi (- 538) + 2 powi (- 538)"
    by (simp_all add: power_int_minus)
  have "sum_areas (point_interval 0) (corner_quarters (2 powi (- 537))) = Inr (point_interval 0)"
    unfolding corner_quarters_def Let_def h(1)
    apply (subst (1 2 3 4) h(2))
    using area_corner_quarter[of 0 0] area_corner_quarter[of 0 "2 powi (- 538)"]
      area_corner_quarter[of "2 powi (- 538)" 0]
      area_corner_quarter[of "2 powi (- 538)" "2 powi (- 538)"]
    by simp
  then show ?thesis using area_corner split_corner by simp
qed

section \<open>Rounding is monotone\<close>

lemma round_even_bounds: "\<lfloor>r\<rfloor> \<le> round_even r" "round_even r \<le> \<lfloor>r\<rfloor> + 1"
  by (auto simp: round_even_def Let_def)

lemma round_even_mono:
  assumes "r \<le> s"
  shows "round_even r \<le> round_even s"
proof (cases "\<lfloor>r\<rfloor> = \<lfloor>s\<rfloor>")
  case True
  then show ?thesis using assms by (auto simp: round_even_def Let_def)
next
  case False
  then have "\<lfloor>r\<rfloor> < \<lfloor>s\<rfloor>" using floor_mono[OF assms] by simp
  then show ?thesis using round_even_bounds(2)[of r] round_even_bounds(1)[of s] by linarith
qed

lemma round_even_ge: "of_int n \<le> r \<Longrightarrow> n \<le> round_even r"
  using round_even_mono[of "of_int n" r] by simp

lemma round_even_le: "r \<le> of_int n \<Longrightarrow> round_even r \<le> n"
  using round_even_mono[of r "of_int n"] by simp


lemma powi_int_multiple:
  assumes "j \<le> e"
  shows "\<exists>n::int. (2::real) powi e = of_int n * 2 powi j \<and> 0 < n"
proof -
  have "(2::real) powi e = 2 powi (e - j) * 2 powi j"
    by (simp add: power_int_diff)
  also have "(2::real) powi (e - j) = of_int (2 ^ nat (e - j))"
    using assms by (simp add: power_int_def)
  finally show ?thesis by (intro exI[of _ "2 ^ nat (e - j)"]) simp
qed






lemma powi_le_cancel: "(2::real) powi a \<le> 2 powi b \<Longrightarrow> a \<le> b"
  using power_int_strict_increasing[of b a "2::real"] by (cases "a \<le> b") simp_all



section \<open>Representable numbers\<close>

lemma fl_exact:
  assumes "\<bar>m\<bar> \<le> 2 ^ 53" "- 1074 \<le> e"
  shows "fl (of_int m * 2 powi e) = of_int m * 2 powi e"
proof (cases "m = 0")
  case True
  then show ?thesis by simp
next
  case False
  let ?x = "of_int m * 2 powi e :: real"
  have nz: "?x \<noteq> 0" using False by simp
  have "\<bar>?x\<bar> = of_int \<bar>m\<bar> * 2 powi e" by (simp add: abs_mult)
  also have "\<dots> \<le> of_int (2 ^ 53) * 2 powi e"
  proof (rule mult_right_mono)
    show "(of_int \<bar>m\<bar> :: real) \<le> of_int (2 ^ 53)" using assms(1) by (simp only: of_int_le_iff)
    show "(0::real) \<le> 2 powi e" by simp
  qed
  also have "\<dots> = 2 powi (e + 53)" by (simp add: power_int_add)
  finally have ub: "\<bar>?x\<bar> \<le> 2 powi (e + 53)" .
  have "2 powi (expo ?x) \<le> \<bar>?x\<bar>" by (rule expo_bounds(1)[OF nz])
  then have "(2::real) powi (expo ?x) \<le> 2 powi (e + 53)" using ub by linarith
  then have ex: "expo ?x \<le> e + 53" by (rule powi_le_cancel)
  define j where "j = max (expo ?x) (- 1022) - 52"
  have q: "quantum ?x = 2 powi j" by (simp add: quantum_def j_def)
  show ?thesis
  proof (cases "j \<le> e")
    case True
    have "?x / 2 powi j = of_int m * 2 powi (e - j)" by (simp add: power_int_diff)
    also have "(2::real) powi (e - j) = of_int (2 ^ nat (e - j))"
      using True by (simp add: power_int_def)
    finally have "?x / 2 powi j = of_int (m * 2 ^ nat (e - j))" by simp
    then have "round_even (?x / 2 powi j) = m * 2 ^ nat (e - j)"
      using round_even_of_int by metis
    then have "fl ?x = of_int (m * 2 ^ nat (e - j)) * 2 powi j" by (simp add: fl_def q)
    also have "\<dots> = of_int m * (2 powi (e - j) * 2 powi j)"
      using True by (simp add: power_int_def)
    also have "\<dots> = ?x" by (simp add: power_int_diff)
    finally show ?thesis .
  next
    case False
    then have j: "j = e + 1" "expo ?x = e + 53" using ex assms(2) by (auto simp: j_def max_def split: if_splits)
    have "2 powi (e + 53) \<le> \<bar>?x\<bar>" using expo_bounds(1)[OF nz] j(2) by simp
    then have "\<bar>?x\<bar> = 2 powi (e + 53)" using ub by simp
    then have "\<bar>?x / 2 powi j\<bar> = 2 powi (e + 53) / 2 powi (e + 1)"
      unfolding j(1) by (simp add: abs_divide del: abs_mult)
    also have "\<dots> = 2 ^ 52" by (simp add: power_int_add)
    finally have "\<bar>?x / 2 powi j\<bar> = 2 ^ 52" .
    then have "?x / 2 powi j = of_int (2 ^ 52) \<or> ?x / 2 powi j = of_int (- (2 ^ 52))"
      by (auto simp: abs_if split: if_splits)
    then have "of_int (round_even (?x / 2 powi j)) = ?x / 2 powi j"
      using round_even_of_int by metis
    then show ?thesis by (simp add: fl_def q)
  qed
qed

lemma round_even_abs_le:
  assumes "\<bar>r\<bar> \<le> of_int n"
  shows "\<bar>round_even r\<bar> \<le> n"
proof -
  have "r \<le> of_int n" "of_int (- n) \<le> r" using assms by simp_all
  then have "round_even r \<le> n" "- n \<le> round_even r"
    by (auto intro: round_even_le round_even_ge)
  then show ?thesis by simp
qed

lemma fl_mantissa:
  "\<exists>k::int. fl x = of_int k * 2 powi (max (expo x) (- 1022) - 52) \<and> \<bar>k\<bar> \<le> 2 ^ 53"
proof (cases "x = 0")
  case True
  then show ?thesis by (intro exI[of _ 0]) simp
next
  case False
  let ?j = "max (expo x) (- 1022) - 52"
  have "\<bar>x\<bar> < 2 powi (expo x + 1)" by (rule expo_bounds(2)[OF False])
  also have "\<dots> \<le> 2 powi (?j + 53)" by (intro power_int_increasing) simp_all
  also have "\<dots> = 2 powi ?j * 2 powi 53" by (rule power_int_add) simp
  also have "\<dots> = 2 ^ 53 * 2 powi ?j" by simp
  finally have "\<bar>x\<bar> / 2 powi ?j \<le> 2 ^ 53" by (simp add: field_simps)
  then have "\<bar>x / 2 powi ?j\<bar> \<le> of_int (2 ^ 53)" by (simp add: abs_divide del: abs_mult)
  then have "\<bar>round_even (x / 2 powi ?j)\<bar> \<le> 2 ^ 53" by (rule round_even_abs_le)
  then show ?thesis
    by (intro exI[of _ "round_even (x / 2 powi ?j)"]) (simp add: fl_def quantum_def)
qed

lemma fl_idem [simp]: "fl (fl x) = fl x"
proof -
  obtain k :: int where k: "fl x = of_int k * 2 powi (max (expo x) (- 1022) - 52)" "\<bar>k\<bar> \<le> 2 ^ 53"
    using fl_mantissa by blast
  show ?thesis unfolding k(1) by (rule fl_exact[OF k(2)]) simp
qed

lemma on_grid_0 [simp]: "on_grid 0"
  by (auto simp: on_grid_def intro: exI[of _ 0])


lemma on_grid_powi:
  assumes "- 1074 \<le> j"
  shows "on_grid (of_int k * 2 powi j :: real)"
proof -
  obtain n :: int where "(2::real) powi j = of_int n * 2 powi (- 1074)"
    using powi_int_multiple[OF assms] by blast
  then have "of_int k * 2 powi j = (of_int (k * n) * 2 powi (- 1074) :: real)"
    by (simp only: of_int_mult mult.assoc)
  then show ?thesis unfolding on_grid_def by blast
qed

lemma on_grid_fl [simp]: "on_grid (fl x)"
proof -
  obtain k :: int where k: "fl x = of_int k * 2 powi (max (expo x) (- 1022) - 52)"
    using fl_mantissa by blast
  show ?thesis unfolding k by (rule on_grid_powi) simp
qed



section \<open>What the widening covers\<close>






section \<open>Intervals that enclose\<close>





lemma rnd_not_NaN [simp]: "rnd x \<noteq> NaN"
  by (simp add: rnd_def Let_def)














section \<open>Sums that enclose\<close>






section \<open>The resolved boxes\<close>









end
